theory Spec2Isabelle
  imports Main "HOL-Library.Word" "HOL-Library.Multiset"
begin

unbundle bit_operations_syntax

section \<open>Pointers, reserved encodings and atomic memory\<close>

text \<open>
  A \<open>T*\<close> is modelled by its bit pattern as a \<open>std::uintptr_t\<close> on the 64-bit targets
  the source names (x86-64, AArch64). \<open>reserved::sentinel()\<close> is
  \<open>~uintptr_t(0)\<close> and \<open>reserved::reset()\<close> is \<open>~uintptr_t(0) - 1\<close>.
\<close>

type_synonym ptr = "64 word"

definition nullptr :: ptr where
  "nullptr = 0"

definition reserved_sentinel :: ptr where
  "reserved_sentinel = NOT 0"

definition reserved_reset :: ptr where
  "reserved_reset = NOT 0 - 1"

datatype memory_order =
  memory_order_relaxed | memory_order_consume | memory_order_acquire |
  memory_order_release | memory_order_acq_rel | memory_order_seq_cst

text \<open>
  The atomic objects of the program: the cells of the static array
  \<open>m_acquire_list\<close> (by index) and the \<open>std::atomic<T*>\<close> sources the callers
  pass by reference (by an address).
\<close>

datatype loc = Cell nat | Source nat

datatype event =
  Load loc memory_order ptr
| Store loc memory_order ptr
| Cas loc memory_order ptr ptr bool

text \<open>
  The memory the operations act on: the values of the cells of the static array, the
  static \<open>m_instance\<close> (the address of a domain object, \<open>None\<close> for \<open>nullptr\<close>),
  the values of the sources, the atomic accesses performed so far (in the order they
  were performed, each with the ordering the source asks for), and the objects
  destroyed by \<open>delete\<close>, in the order of their destruction. The functions of the
  first sections are the operations run by one thread with no other thread taking a
  step meanwhile; the last section of definitions interleaves threads.
\<close>

record memory =
  m_acquire_list :: "ptr list"
  m_instance :: "nat option"
  atomics :: "nat \<Rightarrow> ptr"
  accesses :: "event list"
  deleted :: "ptr list"

definition max_objects :: "memory \<Rightarrow> nat" where
  "max_objects s = length (m_acquire_list s)"

fun read_loc :: "loc \<Rightarrow> memory \<Rightarrow> ptr" where
  "read_loc (Cell i) s = m_acquire_list s ! i"
| "read_loc (Source a) s = atomics s a"

fun write_loc :: "loc \<Rightarrow> ptr \<Rightarrow> memory \<Rightarrow> memory" where
  "write_loc (Cell i) v s = s\<lparr>m_acquire_list := (m_acquire_list s)[i := v]\<rparr>"
| "write_loc (Source a) v s = s\<lparr>atomics := (atomics s)(a := v)\<rparr>"

definition atomic_load :: "loc \<Rightarrow> memory_order \<Rightarrow> memory \<Rightarrow> ptr \<times> memory" where
  "atomic_load l mo s =
     (let v = read_loc l s in (v, s\<lparr>accesses := accesses s @ [Load l mo v]\<rparr>))"

definition atomic_store :: "loc \<Rightarrow> ptr \<Rightarrow> memory_order \<Rightarrow> memory \<Rightarrow> memory" where
  "atomic_store l v mo s = (write_loc l v s)\<lparr>accesses := accesses s @ [Store l mo v]\<rparr>"

text \<open>
  \<open>compare_exchange_strong(expected, desired, mo)\<close>: writes \<open>desired\<close> and returns
  true when the location holds \<open>expected\<close>; otherwise leaves it and returns false.
\<close>

definition compare_exchange_strong ::
  "loc \<Rightarrow> ptr \<Rightarrow> ptr \<Rightarrow> memory_order \<Rightarrow> memory \<Rightarrow> bool \<times> memory" where
  "compare_exchange_strong l expected desired mo s =
     (let ok = (read_loc l s = expected);
          s1 = (if ok then write_loc l desired s else s)
      in (ok, s1\<lparr>accesses := accesses s @ [Cas l mo expected desired ok]\<rparr>))"

datatype error = Abort | Assertion_failed

section \<open>The domain: capture and release of cells\<close>

text \<open>
  \<open>capture_cell\<close>: the range-for over \<open>m_acquire_list\<close>, as a recursion over the
  indices still to visit. \<open>std::abort()\<close> after the loop is the error \<open>Abort\<close>.
\<close>

fun capture_cell_loop :: "nat list \<Rightarrow> memory \<Rightarrow> error + (nat \<times> memory)" where
  "capture_cell_loop [] s = Inl Abort"
| "capture_cell_loop (i # rest) s =
     (let (v, s1) = atomic_load (Cell i) memory_order_relaxed s in
      if v = nullptr then
        (let (ok, s2) = compare_exchange_strong (Cell i) nullptr reserved_sentinel
                          memory_order_acq_rel s1 in
         if ok then Inr (i, s2) else capture_cell_loop rest s2)
      else capture_cell_loop rest s1)"

definition capture_cell :: "memory \<Rightarrow> error + (nat \<times> memory)" where
  "capture_cell s = capture_cell_loop [0 ..< max_objects s] s"

text \<open>A cell pointer is \<open>None\<close> for \<open>nullptr\<close> and \<open>Some i\<close> for \<open>&m_acquire_list[i]\<close>.\<close>

definition release_cell :: "nat option \<Rightarrow> memory \<Rightarrow> memory" where
  "release_cell cell s =
     (case cell of
        None \<Rightarrow> s
      | Some c \<Rightarrow> atomic_store (Cell c) nullptr memory_order_release s)"

text \<open>The constructor of \<open>hazard_domain\<close>, for the domain object at address \<open>this\<close>.\<close>

definition hazard_domain_ctor :: "nat \<Rightarrow> memory \<Rightarrow> memory" where
  "hazard_domain_ctor this s =
     (if m_instance s = None then s\<lparr>m_instance := Some this\<rparr> else s)"

section \<open>The domain: reclamation\<close>

fun scan_for_hazard_loop :: "nat list \<Rightarrow> ptr \<Rightarrow> memory \<Rightarrow> bool \<times> memory" where
  "scan_for_hazard_loop [] p s = (False, s)"
| "scan_for_hazard_loop (i # rest) p s =
     (let (hazard, s1) = atomic_load (Cell i) memory_order_seq_cst s in
      if hazard \<noteq> nullptr \<and> hazard \<noteq> reserved_sentinel \<and>
         hazard \<noteq> reserved_reset \<and> hazard = p
      then (True, s1)
      else scan_for_hazard_loop rest p s1)"

definition scan_for_hazard :: "ptr \<Rightarrow> memory \<Rightarrow> bool \<times> memory" where
  "scan_for_hazard p s = scan_for_hazard_loop [0 ..< max_objects s] p s"

text \<open>
  \<open>delete_hazards\<close>: the vector is a list and the iterators \<open>it\<close> and \<open>end\<close> are
  indices into it. \<open>it\<close> starts at \<open>begin()\<close>, \<open>end\<close> at \<open>end()\<close>, each turn
  moves one of them one place towards the other, so \<open>it \<le> end\<close> throughout and the
  loop test \<open>it != end\<close> is \<open>it < end\<close>. \<open>delete *it\<close> appends the pointer to
  \<open>deleted\<close>; \<open>*it = std::move(*end)\<close> copies a raw pointer.
\<close>

function delete_hazards_loop ::
  "nat \<Rightarrow> nat \<Rightarrow> ptr list \<Rightarrow> memory \<Rightarrow> (nat \<times> ptr list) \<times> memory" where
  "delete_hazards_loop it end' buffer s =
     (if it < end' then
        (let (hazard, s1) = scan_for_hazard (buffer ! it) s in
         if hazard then delete_hazards_loop (it + 1) end' buffer s1
         else
           (let s2 = s1\<lparr>deleted := deleted s1 @ [buffer ! it]\<rparr>;
                end1 = end' - 1;
                buffer1 = (if it \<noteq> end1 then buffer[it := buffer ! end1] else buffer)
            in delete_hazards_loop it end1 buffer1 s2))
      else ((end', buffer), s))"
  by pat_completeness auto
termination
  by (relation "measure (\<lambda>(it, end', buffer, s). end' - it)") auto

declare delete_hazards_loop.simps [simp del]

text \<open>\<open>buffer.erase(end, buffer.end())\<close> keeps the first \<open>end\<close> entries.\<close>

definition delete_hazards :: "ptr list \<Rightarrow> memory \<Rightarrow> ptr list \<times> memory" where
  "delete_hazards buffer s =
     (let ((end', buffer1), s1) = delete_hazards_loop 0 (length buffer) buffer s
      in (take end' buffer1, s1))"

text \<open>
  \<open>retire_buffer\<close>: the holder of one thread's retire queue. Its constructor stores
  the domain pointer it is given (and reserves capacity, which no result depends on).
  Its destructor runs at thread exit; the vector is destroyed after it, which deletes
  none of the pointers still queued.
\<close>

record retire_buffer =
  buffer :: "ptr list"
  domain_ref :: "nat option"

definition retire_buffer_ctor :: "nat option \<Rightarrow> retire_buffer" where
  "retire_buffer_ctor d = \<lparr>buffer = [], domain_ref = d\<rparr>"

definition retire_buffer_dtor :: "retire_buffer \<Rightarrow> memory \<Rightarrow> memory" where
  "retire_buffer_dtor rb s =
     (if domain_ref rb \<noteq> None \<and> buffer rb \<noteq> []
      then snd (delete_hazards (buffer rb) s)
      else s)"

text \<open>
  \<open>tl_retires\<close>: the \<open>thread_local\<close> holder of the calling thread, \<open>None\<close> until the
  thread's first call, which constructs it from the \<open>m_instance\<close> of that moment.
\<close>

definition tl_retires :: "retire_buffer option \<Rightarrow> memory \<Rightarrow> retire_buffer" where
  "tl_retires tls s =
     (case tls of None \<Rightarrow> retire_buffer_ctor (m_instance s) | Some rb \<Rightarrow> rb)"

text \<open>
  \<open>retire\<close>: \<open>push_back\<close>, then the test \<open>retires.size() >= 2 * max_objects\<close>. The
  sizes are natural numbers: an array of \<open>max_objects\<close> cells exists, so twice its
  length does not wrap around in \<open>std::size_t\<close>.
\<close>

definition retire ::
  "ptr \<Rightarrow> retire_buffer option \<Rightarrow> memory \<Rightarrow> retire_buffer option \<times> memory" where
  "retire data tls s =
     (let rb = tl_retires tls s;
          retires = buffer rb @ [data]
      in if length retires \<ge> 2 * max_objects s
         then (let (retires1, s1) = delete_hazards retires s
               in (Some (rb\<lparr>buffer := retires1\<rparr>), s1))
         else (Some (rb\<lparr>buffer := retires\<rparr>), s))"

text \<open>Thread teardown destroys the thread's holder, if the thread ever made one.\<close>

definition thread_exit :: "retire_buffer option \<Rightarrow> memory \<Rightarrow> memory" where
  "thread_exit tls s = (case tls of None \<Rightarrow> s | Some rb \<Rightarrow> retire_buffer_dtor rb s)"

fun retire_all ::
  "ptr list \<Rightarrow> retire_buffer option \<Rightarrow> memory \<Rightarrow> retire_buffer option \<times> memory" where
  "retire_all [] tls s = (tls, s)"
| "retire_all (p # ps) tls s = (let (tls1, s1) = retire p tls s in retire_all ps tls1 s1)"

section \<open>The handle\<close>

text \<open>
  A \<open>hazard_pointer\<close> object has the one field \<open>m_cell\<close>. Handle objects live at
  addresses; the operations that take two handles by reference, or keep a reference
  to one, work on the store of handle objects.
\<close>

record hazard_pointer =
  m_cell :: "nat option"

type_synonym handles = "nat \<Rightarrow> hazard_pointer"

definition make_hazard_pointer :: "memory \<Rightarrow> error + (hazard_pointer \<times> memory)" where
  "make_hazard_pointer s =
     (case capture_cell s of
        Inl e \<Rightarrow> Inl e
      | Inr (c, s1) \<Rightarrow> Inr (\<lparr>m_cell = Some c\<rparr>, s1))"

text \<open>Move construction of the new object at \<open>this\<close> from the object at \<open>hp\<close>.\<close>

definition hazard_pointer_move_ctor :: "nat \<Rightarrow> nat \<Rightarrow> handles \<Rightarrow> handles" where
  "hazard_pointer_move_ctor this hp objs =
     (let old = m_cell (objs hp);
          objs1 = objs(hp := (objs hp)\<lparr>m_cell := None\<rparr>)
      in objs1(this := \<lparr>m_cell = old\<rparr>))"

definition hazard_pointer_move_assign ::
  "nat \<Rightarrow> nat \<Rightarrow> handles \<Rightarrow> memory \<Rightarrow> handles \<times> memory" where
  "hazard_pointer_move_assign this hp objs s =
     (if this \<noteq> hp then
        (let s1 = (if m_cell (objs this) \<noteq> None
                   then release_cell (m_cell (objs this)) s else s);
             old = m_cell (objs hp);
             objs1 = objs(hp := (objs hp)\<lparr>m_cell := None\<rparr>)
         in (objs1(this := (objs1 this)\<lparr>m_cell := old\<rparr>), s1))
      else (objs, s))"

definition hazard_pointer_dtor :: "nat \<Rightarrow> handles \<Rightarrow> memory \<Rightarrow> memory" where
  "hazard_pointer_dtor this objs s =
     (if m_cell (objs this) \<noteq> None then release_cell (m_cell (objs this)) s else s)"

definition empty_hp :: "hazard_pointer \<Rightarrow> memory \<Rightarrow> bool \<times> memory" where
  "empty_hp hp s =
     (case m_cell hp of
        None \<Rightarrow> (True, s)
      | Some c \<Rightarrow>
          (let (p, s1) = atomic_load (Cell c) memory_order_relaxed s
           in (p = nullptr \<or> p = reserved_reset, s1)))"

text \<open>
  \<open>try_protect\<close> returns its \<open>bool\<close> together with the final value of the reference
  parameter \<open>ptr\<close>. A failed \<open>assert\<close> is the error \<open>Assertion_failed\<close>.
\<close>

definition try_protect ::
  "hazard_pointer \<Rightarrow> ptr \<Rightarrow> nat \<Rightarrow> memory \<Rightarrow> error + ((bool \<times> ptr) \<times> memory)" where
  "try_protect hp p src s =
     (case m_cell hp of
        None \<Rightarrow> Inl Assertion_failed
      | Some c \<Rightarrow>
          (let s1 = atomic_store (Cell c) p memory_order_seq_cst s;
               (current, s2) = atomic_load (Source src) memory_order_acquire s1
           in if current = p then Inr ((True, p), s2)
              else (let s3 = atomic_store (Cell c) reserved_reset memory_order_release s2
                    in Inr ((False, current), s3))))"

text \<open>
  The retry loop of \<open>protect\<close>. The pause hint between two attempts has no effect on
  the memory. With no other thread writing the source during the call, a failed
  attempt hands back the value the source holds, so the next attempt succeeds.
\<close>

function protect_loop ::
  "hazard_pointer \<Rightarrow> nat \<Rightarrow> ptr \<Rightarrow> memory \<Rightarrow> error + (ptr \<times> memory)" where
  "protect_loop hp src p s =
     (case try_protect hp p src s of
        Inl e \<Rightarrow> Inl e
      | Inr ((ok, p1), s1) \<Rightarrow> if ok then Inr (p1, s1) else protect_loop hp src p1 s1)"
  by pat_completeness auto
termination
proof (relation "measure (\<lambda>(hp, src, p, s). if atomics s src = p then 0 else 1)")
  show "wf (measure (\<lambda>(hp, src, p, s). if atomics s src = p then 0 else (1::nat)))"
    by simp
next
  fix hp :: hazard_pointer and src :: nat and p :: ptr and s :: memory
    and x2 x y s1 ok p1
  assume "try_protect hp p src s = Inr x2" "(x, s1) = x2" "(ok, p1) = x" "\<not> ok"
  then have "try_protect hp p src s = Inr ((False, p1), s1)"
    by auto
  then have "atomics s src \<noteq> p \<and> atomics s1 src = p1"
    by (auto simp: try_protect_def atomic_store_def atomic_load_def Let_def
             split: option.splits if_splits)
  then show "((hp, src, p1, s1), (hp, src, p, s))
      \<in> measure (\<lambda>(hp, src, p, s). if atomics s src = p then 0 else (1::nat))"
    by simp
qed

declare protect_loop.simps [simp del]

definition protect :: "hazard_pointer \<Rightarrow> nat \<Rightarrow> memory \<Rightarrow> error + (ptr \<times> memory)" where
  "protect hp src s =
     (let (p, s1) = atomic_load (Source src) memory_order_relaxed s
      in protect_loop hp src p s1)"

definition reset_protection :: "hazard_pointer \<Rightarrow> memory \<Rightarrow> error + memory" where
  "reset_protection hp s =
     (case m_cell hp of
        None \<Rightarrow> Inl Assertion_failed
      | Some c \<Rightarrow> Inr (atomic_store (Cell c) reserved_reset memory_order_release s))"

definition reset_protection_ptr :: "hazard_pointer \<Rightarrow> ptr \<Rightarrow> memory \<Rightarrow> error + memory" where
  "reset_protection_ptr hp p s =
     (case m_cell hp of
        None \<Rightarrow> Inl Assertion_failed
      | Some c \<Rightarrow> Inr (atomic_store (Cell c) p memory_order_seq_cst s))"

definition reset_protection_nullptr :: "hazard_pointer \<Rightarrow> memory \<Rightarrow> error + memory" where
  "reset_protection_nullptr hp s = reset_protection hp s"

section \<open>The scoped guard\<close>

text \<open>
  A \<open>guard\<close> keeps a reference to a handle object (its address) and the pointer
  \<open>protect\<close> returned. \<open>operator*\<close> returns the object at \<open>m_ptr\<close>, modelled by
  its address.
\<close>

record guard =
  m_hp :: nat
  m_ptr :: ptr

definition guard_ctor ::
  "nat \<Rightarrow> nat \<Rightarrow> handles \<Rightarrow> memory \<Rightarrow> error + (guard \<times> memory)" where
  "guard_ctor hp src objs s =
     (case protect (objs hp) src s of
        Inl e \<Rightarrow> Inl e
      | Inr (p, s1) \<Rightarrow> Inr (\<lparr>m_hp = hp, m_ptr = p\<rparr>, s1))"

definition guard_dtor :: "guard \<Rightarrow> handles \<Rightarrow> memory \<Rightarrow> error + memory" where
  "guard_dtor g objs s = reset_protection (objs (m_hp g)) s"

definition get :: "guard \<Rightarrow> ptr" where
  "get g = m_ptr g"

definition operator_arrow :: "guard \<Rightarrow> ptr" where
  "operator_arrow g = m_ptr g"

definition operator_star :: "guard \<Rightarrow> ptr" where
  "operator_star g = m_ptr g"

definition operator_bool :: "guard \<Rightarrow> bool" where
  "operator_bool g = (m_ptr g \<noteq> nullptr)"

section \<open>Specification-level notions\<close>

text \<open>
  A pointer is hazarded when some cell holds exactly that address and the value is
  neither null nor one of the two reserved encodings.
\<close>

definition hazarded :: "memory \<Rightarrow> ptr \<Rightarrow> bool" where
  "hazarded s p =
     list_ex (\<lambda>hazard. hazard \<noteq> nullptr \<and> hazard \<noteq> reserved_sentinel \<and>
                       hazard \<noteq> reserved_reset \<and> hazard = p) (m_acquire_list s)"

text \<open>
  One pass of removal by swapping with the last remaining element, on lists: an entry
  to keep stays where it is; an entry to remove is replaced by the last entry of the
  rest of the queue, which is examined next. The result is the queue kept and the
  entries removed, in the order of their removal.
\<close>

definition last_to_front :: "'a list \<Rightarrow> 'a list" where
  "last_to_front xs = (if xs = [] then [] else last xs # butlast xs)"

function swap_remove_pass :: "('a \<Rightarrow> bool) \<Rightarrow> 'a list \<Rightarrow> 'a list \<times> 'a list" where
  "swap_remove_pass keep [] = ([], [])"
| "swap_remove_pass keep (x # xs) =
     (if keep x
      then (let (kept, removed) = swap_remove_pass keep xs in (x # kept, removed))
      else (let (kept, removed) = swap_remove_pass keep (last_to_front xs)
            in (kept, x # removed)))"
  by pat_completeness auto
termination
  by (relation "measure (\<lambda>(keep, xs). length xs)") (auto simp: last_to_front_def)

text \<open>\<open>k\<close> captures in a row, none released in between; the cells claimed, in order.\<close>

fun capture_cells :: "nat \<Rightarrow> memory \<Rightarrow> error + (nat list \<times> memory)" where
  "capture_cells 0 s = Inr ([], s)"
| "capture_cells (Suc k) s =
     (case capture_cells k s of
        Inl e \<Rightarrow> Inl e
      | Inr (cs, s1) \<Rightarrow>
          (case capture_cell s1 of
             Inl e \<Rightarrow> Inl e
           | Inr (c, s2) \<Rightarrow> Inr (cs @ [c], s2)))"

section \<open>Interleaved execution\<close>

text \<open>
  Threads that run the operations above at the same time, as an interleaving of their
  atomic steps on one shared memory: every step makes at most one access to a shared
  atomic object, and the accesses of all threads are totally ordered (a sequentially
  consistent execution, which the C++ memory model admits for every program).

  A reader runs \<open>protect(src)\<close> on the cell it owns. Its program points: the relaxed
  load of the first guess; the store of \<open>ptr\<close> into the cell; the reload of the
  source; after a failed comparison, the store of the RESET encoding, which also
  assigns \<open>ptr = current\<close> and goes round the loop; and the return.
\<close>

datatype protect_pc = Load_guess | Publish | Reload | Reset_cell ptr | Returned

record reader =
  r_cell :: nat
  r_src :: nat
  r_ptr :: ptr
  r_pc :: protect_pc

definition reader_step :: "reader \<Rightarrow> memory \<Rightarrow> reader \<times> memory" where
  "reader_step r s =
     (case r_pc r of
        Load_guess \<Rightarrow>
          (let (p, s1) = atomic_load (Source (r_src r)) memory_order_relaxed s
           in (r\<lparr>r_ptr := p, r_pc := Publish\<rparr>, s1))
      | Publish \<Rightarrow>
          (r\<lparr>r_pc := Reload\<rparr>,
           atomic_store (Cell (r_cell r)) (r_ptr r) memory_order_seq_cst s)
      | Reload \<Rightarrow>
          (let (current, s1) = atomic_load (Source (r_src r)) memory_order_acquire s
           in if current = r_ptr r then (r\<lparr>r_pc := Returned\<rparr>, s1)
              else (r\<lparr>r_pc := Reset_cell current\<rparr>, s1))
      | Reset_cell current \<Rightarrow>
          (r\<lparr>r_ptr := current, r_pc := Publish\<rparr>,
           atomic_store (Cell (r_cell r)) reserved_reset memory_order_release s)
      | Returned \<Rightarrow> (r, s))"

text \<open>
  A reclaimer runs \<open>delete_hazards\<close> on its own queue. \<open>d_scan\<close> is \<open>None\<close> at the
  loop test \<open>it != end\<close>, and \<open>Some i\<close> inside \<open>scan_for_hazard(*it)\<close>: before the
  load of cell \<open>i\<close>, or, once \<open>i\<close> has reached the number of cells, at the
  \<open>return false\<close> that is followed by \<open>delete *it\<close> and the compaction.
\<close>

record reclaimer =
  d_it :: nat
  d_end :: nat
  d_buffer :: "ptr list"
  d_scan :: "nat option"

definition reclaimer_step :: "reclaimer \<Rightarrow> memory \<Rightarrow> reclaimer \<times> memory" where
  "reclaimer_step d s =
     (case d_scan d of
        None \<Rightarrow> (if d_it d < d_end d then (d\<lparr>d_scan := Some 0\<rparr>, s) else (d, s))
      | Some i \<Rightarrow>
          (if i < max_objects s then
             (let (hazard, s1) = atomic_load (Cell i) memory_order_seq_cst s in
              if hazard \<noteq> nullptr \<and> hazard \<noteq> reserved_sentinel \<and>
                 hazard \<noteq> reserved_reset \<and> hazard = d_buffer d ! d_it d
              then (d\<lparr>d_it := d_it d + 1, d_scan := None\<rparr>, s1)
              else (d\<lparr>d_scan := Some (i + 1)\<rparr>, s1))
           else
             (let s1 = s\<lparr>deleted := deleted s @ [d_buffer d ! d_it d]\<rparr>;
                  end1 = d_end d - 1;
                  buffer1 = (if d_it d \<noteq> end1
                             then (d_buffer d)[d_it d := d_buffer d ! end1]
                             else d_buffer d)
              in (d\<lparr>d_end := end1, d_buffer := buffer1, d_scan := None\<rparr>, s1))))"

text \<open>
  The system: the shared memory, the readers and the reclaimers. A schedule is a list
  of actions: a step of one reader, a step of one reclaimer, or a store to a source by
  the code that uses the library (a writer that unlinks or replaces an object).
\<close>

record system =
  mem :: memory
  readers :: "reader list"
  reclaimers :: "reclaimer list"

datatype action = Reader_step nat | Reclaimer_step nat | Source_store nat ptr

fun step :: "action \<Rightarrow> system \<Rightarrow> system" where
  "step (Reader_step k) sys =
     (if k < length (readers sys)
      then (let (r, s1) = reader_step (readers sys ! k) (mem sys)
            in sys\<lparr>mem := s1, readers := (readers sys)[k := r]\<rparr>)
      else sys)"
| "step (Reclaimer_step k) sys =
     (if k < length (reclaimers sys)
      then (let (d, s1) = reclaimer_step (reclaimers sys ! k) (mem sys)
            in sys\<lparr>mem := s1, reclaimers := (reclaimers sys)[k := d]\<rparr>)
      else sys)"
| "step (Source_store a v) sys =
     sys\<lparr>mem := atomic_store (Source a) v memory_order_seq_cst (mem sys)\<rparr>"

definition run :: "action list \<Rightarrow> system \<Rightarrow> system" where
  "run sched sys = foldl (\<lambda>st a. step a st) sys sched"

text \<open>
  The pointer the next step of a reclaimer deletes, if that step is a deletion.
\<close>

definition about_to_delete :: "reclaimer \<Rightarrow> memory \<Rightarrow> ptr option" where
  "about_to_delete d s =
     (case d_scan d of
        None \<Rightarrow> None
      | Some i \<Rightarrow> if i < max_objects s then None else Some (d_buffer d ! d_it d))"

text \<open>
  \<open>not_past c p d\<close>: the reclaimer \<open>d\<close> is not inside a scan for \<open>p\<close> that has
  already gone past cell \<open>c\<close>. \<open>holds_throughout c p sched sys\<close>: cell \<open>c\<close> holds
  \<open>p\<close> in every state the schedule goes through, the first and the last included.
  \<open>deleted_during sched sys\<close>: the pointers deleted by the steps of the schedule.
\<close>

definition not_past :: "nat \<Rightarrow> ptr \<Rightarrow> reclaimer \<Rightarrow> bool" where
  "not_past c p d =
     (case d_scan d of
        None \<Rightarrow> True
      | Some i \<Rightarrow> d_buffer d ! d_it d = p \<longrightarrow> i \<le> c)"

definition holds_throughout :: "nat \<Rightarrow> ptr \<Rightarrow> action list \<Rightarrow> system \<Rightarrow> bool" where
  "holds_throughout c p sched sys =
     list_all (\<lambda>k. m_acquire_list (mem (run (take k sched) sys)) ! c = p)
       [0 ..< Suc (length sched)]"

definition deleted_during :: "action list \<Rightarrow> system \<Rightarrow> ptr list" where
  "deleted_during sched sys =
     drop (length (deleted (mem sys))) (deleted (mem (run sched sys)))"

text \<open>A reclaimer running alone: \<open>n\<close> of its steps in a row.\<close>

fun reclaimer_run :: "nat \<Rightarrow> reclaimer \<Rightarrow> memory \<Rightarrow> reclaimer \<times> memory" where
  "reclaimer_run 0 d s = (d, s)"
| "reclaimer_run (Suc n) d s = (let (d1, s1) = reclaimer_step d s in reclaimer_run n d1 s1)"

text \<open>
  Threads that run \<open>capture_cell\<close> at the same time. The program points of one
  sweep: before the relaxed load of cell \<open>i\<close> (past the last cell, before
  \<open>std::abort()\<close>); before the compare-and-exchange on cell \<open>i\<close>, which the load
  found null; returned with cell \<open>i\<close>; aborted. A compare-and-exchange that fails
  goes on to the next cell. \<open>Owner_store j v\<close> is a store to cell \<open>j\<close> by the handle
  that owns it (a publish, a reset or a release).
\<close>

datatype capture_pc = Load_cell nat | Cas_cell nat | Captured nat | Aborted

definition capturer_step :: "capture_pc \<Rightarrow> memory \<Rightarrow> capture_pc \<times> memory" where
  "capturer_step pc s =
     (case pc of
        Load_cell i \<Rightarrow>
          (if i < max_objects s then
             (let (v, s1) = atomic_load (Cell i) memory_order_relaxed s
              in if v = nullptr then (Cas_cell i, s1) else (Load_cell (i + 1), s1))
           else (Aborted, s))
      | Cas_cell i \<Rightarrow>
          (let (ok, s1) = compare_exchange_strong (Cell i) nullptr reserved_sentinel
                            memory_order_acq_rel s
           in if ok then (Captured i, s1) else (Load_cell (i + 1), s1))
      | Captured i \<Rightarrow> (pc, s)
      | Aborted \<Rightarrow> (pc, s))"

record capture_system =
  c_mem :: memory
  capturers :: "capture_pc list"

datatype capture_action = Capturer_step nat | Owner_store nat ptr

fun capture_step :: "capture_action \<Rightarrow> capture_system \<Rightarrow> capture_system" where
  "capture_step (Capturer_step k) sys =
     (if k < length (capturers sys)
      then (let (pc, s1) = capturer_step (capturers sys ! k) (c_mem sys)
            in sys\<lparr>c_mem := s1, capturers := (capturers sys)[k := pc]\<rparr>)
      else sys)"
| "capture_step (Owner_store j v) sys =
     sys\<lparr>c_mem := atomic_store (Cell j) v memory_order_seq_cst (c_mem sys)\<rparr>"

definition capture_run :: "capture_action list \<Rightarrow> capture_system \<Rightarrow> capture_system" where
  "capture_run sched sys = foldl (\<lambda>st a. capture_step a st) sys sched"

text \<open>A capturer running alone: \<open>n\<close> of its steps in a row.\<close>

fun capturer_run :: "nat \<Rightarrow> capture_pc \<Rightarrow> memory \<Rightarrow> capture_pc \<times> memory" where
  "capturer_run 0 pc s = (pc, s)"
| "capturer_run (Suc n) pc s = (let (pc1, s1) = capturer_step pc s in capturer_run n pc1 s1)"

text \<open>
  \<open>exclusive\<close>: every capturer about to exchange is at a cell of the array; every
  capturer that has returned holds a cell of the array that is not null; no two
  capturers have returned the same cell.
\<close>

definition exclusive :: "capture_system \<Rightarrow> bool" where
  "exclusive sys =
     ((\<forall>c < length (capturers sys). \<forall>i. capturers sys ! c = Cas_cell i \<longrightarrow>
          i < max_objects (c_mem sys)) \<and>
      (\<forall>c < length (capturers sys). \<forall>i. capturers sys ! c = Captured i \<longrightarrow>
          i < max_objects (c_mem sys) \<and> m_acquire_list (c_mem sys) ! i \<noteq> nullptr) \<and>
      (\<forall>c < length (capturers sys). \<forall>c' < length (capturers sys). \<forall>i.
          c \<noteq> c' \<and> capturers sys ! c = Captured i \<longrightarrow> capturers sys ! c' \<noteq> Captured i))"

section \<open>Capture: first free cell, capacity\<close>

lemma reserved_distinct:
  "reserved_sentinel \<noteq> nullptr" "reserved_reset \<noteq> nullptr" "reserved_sentinel \<noteq> reserved_reset"
  "nullptr \<noteq> reserved_sentinel" "nullptr \<noteq> reserved_reset" "reserved_reset \<noteq> reserved_sentinel"
  by (simp_all add: reserved_sentinel_def reserved_reset_def nullptr_def)

lemma capture_cell_loop_eq:
  "capture_cell_loop is s =
     (case List.find (\<lambda>i. m_acquire_list s ! i = nullptr) is of
        None \<Rightarrow> Inl Abort
      | Some i \<Rightarrow>
          Inr (i, s\<lparr>m_acquire_list := (m_acquire_list s)[i := reserved_sentinel],
                    accesses := accesses s @
                      map (\<lambda>j. Load (Cell j) memory_order_relaxed (m_acquire_list s ! j))
                        (takeWhile (\<lambda>j. m_acquire_list s ! j \<noteq> nullptr) is @ [i]) @
                      [Cas (Cell i) memory_order_acq_rel nullptr reserved_sentinel True]\<rparr>))"
proof (induction "is" arbitrary: s)
  case Nil
  show ?case by simp
next
  case (Cons i rest)
  show ?case
  proof (cases "m_acquire_list s ! i = nullptr")
    case True
    then show ?thesis
      by (simp add: atomic_load_def compare_exchange_strong_def Let_def)
  next
    case False
    then show ?thesis
      by (simp add: atomic_load_def Let_def Cons.IH split: option.split)
  qed
qed

lemma find_upt_first:
  "List.find P [0 ..< n] = Some i \<Longrightarrow> takeWhile (\<lambda>j. \<not> P j) [0 ..< n] @ [i] = [0 ..< Suc i]"
proof -
  assume a: "List.find P [0 ..< n] = Some i"
  then obtain k where k: "k < n" "P ([0..<n] ! k)" "i = [0..<n] ! k" "\<forall>j<k. \<not> P ([0..<n] ! j)"
    by (auto simp: find_Some_iff)
  then have i: "i < n" "P i" "\<forall>j<i. \<not> P j" by auto
  have "[0 ..< n] = [0 ..< i] @ i # [Suc i ..< n]"
  proof -
    have "[0 ..< n] = [0 ..< i] @ [i ..< n]"
      using i(1) upt_add_eq_append[of 0 i "n - i"] by simp
    then show ?thesis
      using i(1) by (simp add: upt_conv_Cons)
  qed
  then have "takeWhile (\<lambda>j. \<not> P j) [0 ..< n] = [0 ..< i]"
    using i by (simp add: takeWhile_append2 takeWhile_tail)
  then show ?thesis by simp
qed

lemma capture_cell_eq:
  "capture_cell s =
     (case List.find (\<lambda>i. m_acquire_list s ! i = nullptr) [0 ..< max_objects s] of
        None \<Rightarrow> Inl Abort
      | Some i \<Rightarrow>
          Inr (i, s\<lparr>m_acquire_list := (m_acquire_list s)[i := reserved_sentinel],
                    accesses := accesses s @
                      map (\<lambda>j. Load (Cell j) memory_order_relaxed (m_acquire_list s ! j))
                        [0 ..< Suc i] @
                      [Cas (Cell i) memory_order_acq_rel nullptr reserved_sentinel True]\<rparr>))"
  unfolding capture_cell_def capture_cell_loop_eq
  by (auto split: option.split dest!: find_upt_first[where P="\<lambda>i. m_acquire_list s ! i = nullptr"])

lemma find_first_free:
  "k < n \<Longrightarrow>
   List.find (\<lambda>i. (replicate k reserved_sentinel @ replicate (n - k) nullptr) ! i = nullptr) [0 ..< n]
     = Some k"
  by (auto simp: find_Some_iff nth_append reserved_distinct intro!: exI[of _ k])

lemma find_none_free:
  "List.find (\<lambda>i. replicate n reserved_sentinel ! i = nullptr) [0 ..< n] = None"
  by (auto simp: find_None_iff reserved_distinct)

lemma update_first_free:
  "k < n \<Longrightarrow>
   (replicate k reserved_sentinel @ replicate (n - k) nullptr)[k := reserved_sentinel]
     = replicate (Suc k) reserved_sentinel @ replicate (n - Suc k) nullptr"
proof -
  assume k: "k < n"
  then obtain m where m: "n - k = Suc m" "n - Suc k = m"
    by (cases "n - k") auto
  show ?thesis
    by (simp add: m list_update_append replicate_append_same)
qed

lemma capture_cells_fresh:
  "m_acquire_list s = replicate n nullptr \<Longrightarrow> k \<le> n \<Longrightarrow>
   \<exists>s1. capture_cells k s = Inr ([0 ..< k], s1) \<and>
        m_acquire_list s1 = replicate k reserved_sentinel @ replicate (n - k) nullptr"
proof (induction k)
  case 0
  then show ?case by simp
next
  case (Suc k)
  then obtain s1 where s1: "capture_cells k s = Inr ([0 ..< k], s1)"
    "m_acquire_list s1 = replicate k reserved_sentinel @ replicate (n - k) nullptr"
    by auto
  have k: "k < n" using Suc.prems by simp
  have n: "max_objects s1 = n" using k by (simp add: max_objects_def s1(2))
  show ?case
    using k by (simp add: s1 capture_cell_eq n find_first_free update_first_free del: replicate_Suc replicate.simps)
qed

lemma capture_cells_exhausted:
  assumes "m_acquire_list s = replicate n nullptr"
  shows "capture_cells (Suc n) s = Inl Abort"
proof -
  obtain s1 where s1: "capture_cells n s = Inr ([0 ..< n], s1)"
    "m_acquire_list s1 = replicate n reserved_sentinel"
    using capture_cells_fresh[OF assms, of n] by auto
  have n: "max_objects s1 = n" by (simp add: max_objects_def s1(2))
  show ?thesis
    by (simp add: s1 capture_cell_eq n find_none_free)
qed

text \<open>
  A sweep that runs with no other thread taking a step: \<open>capture_cell\<close> visits the
  cells once, in index order: it loads each cell up to the first one that holds null,
  makes one compare-and-exchange from null to the RESERVED sentinel on that cell, and
  returns it; the cells after it are not touched. When no cell holds null the sweep
  ends in \<open>std::abort()\<close>. So, starting from \<open>n\<close> free cells, \<open>n\<close> captures in a
  row with nothing in between succeed and claim the cells \<open>0, \<dots>, n - 1\<close>, and one
  more capture aborts.
\<close>

lemma capture_cell_first_free_or_abort:
  "capture_cell s =
     (case List.find (\<lambda>i. m_acquire_list s ! i = nullptr) [0 ..< max_objects s] of
        None \<Rightarrow> Inl Abort
      | Some i \<Rightarrow>
          Inr (i, s\<lparr>m_acquire_list := (m_acquire_list s)[i := reserved_sentinel],
                    accesses := accesses s @
                      map (\<lambda>j. Load (Cell j) memory_order_relaxed (m_acquire_list s ! j))
                        [0 ..< Suc i] @
                      [Cas (Cell i) memory_order_acq_rel nullptr reserved_sentinel True]\<rparr>)) \<and>
   (\<exists>s1. capture_cells n (s\<lparr>m_acquire_list := replicate n nullptr\<rparr>) = Inr ([0 ..< n], s1) \<and>
         m_acquire_list s1 = replicate n reserved_sentinel) \<and>
   capture_cells (Suc n) (s\<lparr>m_acquire_list := replicate n nullptr\<rparr>) = Inl Abort"
proof -
  let ?s0 = "s\<lparr>m_acquire_list := replicate n nullptr\<rparr>"
  have f: "m_acquire_list ?s0 = replicate n nullptr" by simp
  from capture_cells_fresh[OF f, of n]
  have "\<exists>s1. capture_cells n ?s0 = Inr ([0 ..< n], s1) \<and>
         m_acquire_list s1 = replicate n reserved_sentinel"
    by simp
  moreover have "capture_cells (Suc n) ?s0 = Inl Abort"
    by (rule capture_cells_exhausted[OF f])
  ultimately show ?thesis
    using capture_cell_eq[of s] by blast
qed


text \<open>
  With the cells \<open>[7, null, null]\<close> a capture claims cell \<open>1\<close>; with two free cells
  the third capture in a row aborts.
\<close>

lemma capture_cell_examples:
  "map_sum id fst (capture_cell
      \<lparr>m_acquire_list = [7, nullptr, nullptr], m_instance = None, atomics = (\<lambda>_. 0),
       accesses = [], deleted = []\<rparr>) = Inr 1 \<and>
   map_sum id fst (capture_cells 2
      \<lparr>m_acquire_list = [nullptr, nullptr], m_instance = None, atomics = (\<lambda>_. 0),
       accesses = [], deleted = []\<rparr>) = Inr [0, 1] \<and>
   map_sum id fst (capture_cells 3
      \<lparr>m_acquire_list = [nullptr, nullptr], m_instance = None, atomics = (\<lambda>_. 0),
       accesses = [], deleted = []\<rparr>) = Inl Abort"
  by code_simp

section \<open>Reclamation pass\<close>

lemma mset_last_to_front: "mset (last_to_front xs) = mset xs"
proof (cases "xs = []")
  case True then show ?thesis by (simp add: last_to_front_def)
next
  case False
  then have "xs = butlast xs @ [last xs]" by simp
  then have "mset xs = mset (butlast xs) + {#last xs#}"
    by (metis mset.simps(1) mset.simps(2) mset_append add_mset_add_single union_mset_add_mset_right add.right_neutral)
  with False show ?thesis by (simp add: last_to_front_def)
qed

lemma mset_swap_remove_pass:
  "mset (fst (swap_remove_pass keep xs)) = filter_mset keep (mset xs) \<and>
   mset (snd (swap_remove_pass keep xs)) = filter_mset (\<lambda>x. \<not> keep x) (mset xs)"
proof (induction keep xs rule: swap_remove_pass.induct)
  case (1 keep)
  show ?case by simp
next
  case (2 keep x xs)
  show ?case
  proof (cases "keep x")
    case True
    with 2(1) show ?thesis by (simp add: split_beta)
  next
    case False
    with 2(2) show ?thesis by (simp add: split_beta mset_last_to_front)
  qed
qed

lemma scan_for_hazard_loop_frame:
  "snd (scan_for_hazard_loop is p s) = s\<lparr>accesses := accesses (snd (scan_for_hazard_loop is p s))\<rparr>"
proof (induction "is" arbitrary: s)
  case Nil show ?case by simp
next
  case (Cons i rest)
  show ?case
    using Cons.IH[of "s\<lparr>accesses := accesses s @ [Load (Cell i) memory_order_seq_cst (m_acquire_list s ! i)]\<rparr>"]
    by (simp add: atomic_load_def Let_def)
qed

lemma scan_for_hazard_loop_fst:
  "fst (scan_for_hazard_loop is p s) =
     list_ex (\<lambda>hazard. hazard \<noteq> nullptr \<and> hazard \<noteq> reserved_sentinel \<and>
                       hazard \<noteq> reserved_reset \<and> hazard = p) (map (\<lambda>i. m_acquire_list s ! i) is)"
proof (induction "is" arbitrary: s)
  case Nil show ?case by simp
next
  case (Cons i rest)
  show ?case
    using Cons.IH[of "s\<lparr>accesses := accesses s @ [Load (Cell i) memory_order_seq_cst (m_acquire_list s ! i)]\<rparr>"]
    by (auto simp: atomic_load_def Let_def)
qed

lemma scan_for_hazard_fst: "fst (scan_for_hazard p s) = hazarded s p"
  by (simp add: scan_for_hazard_def scan_for_hazard_loop_fst hazarded_def max_objects_def map_nth)

lemma scan_for_hazard_frame:
  "snd (scan_for_hazard p s) = s\<lparr>accesses := accesses (snd (scan_for_hazard p s))\<rparr>"
  unfolding scan_for_hazard_def by (rule scan_for_hazard_loop_frame)

lemma scan_for_hazard_cells [simp]:
  "m_acquire_list (snd (scan_for_hazard p s)) = m_acquire_list s"
  "deleted (snd (scan_for_hazard p s)) = deleted s"
  "atomics (snd (scan_for_hazard p s)) = atomics s"
  "m_instance (snd (scan_for_hazard p s)) = m_instance s"
  by (subst scan_for_hazard_frame, simp)+

lemma hazarded_cong: "m_acquire_list s1 = m_acquire_list s \<Longrightarrow> hazarded s1 = hazarded s"
  by (simp add: hazarded_def fun_eq_iff)

lemma window_Cons:
  "it < e \<Longrightarrow> e \<le> length buf \<Longrightarrow>
   drop it (take e buf) = buf ! it # drop (Suc it) (take e buf)"
  by (simp add: Cons_nth_drop_Suc[symmetric])

lemma window_last:
  assumes "Suc it < e" "e \<le> length (buf :: 'a list)"
  shows "last_to_front (drop (Suc it) (take e buf)) =
         drop it (take (e - 1) (buf[it := buf ! (e - 1)]))"
proof -
  let ?xs = "drop (Suc it) (take e buf)"
  have ne: "?xs \<noteq> []" using assms by simp
  have l: "last ?xs = buf ! (e - 1)"
  proof -
    have "last ?xs = last (take e buf)" using assms by (simp add: last_drop)
    also have "\<dots> = take e buf ! (length (take e buf) - 1)"
      using assms by (intro last_conv_nth) auto
    also have "\<dots> = buf ! (e - 1)" using assms by (simp add: min_absorb2)
    finally show ?thesis .
  qed
  have b: "butlast ?xs = drop (Suc it) (take (e - 1) buf)"
    using assms by (simp add: butlast_drop butlast_take drop_butlast)
  have "drop it (take (e - 1) (buf[it := buf ! (e - 1)])) =
        buf ! (e - 1) # drop (Suc it) (take (e - 1) buf)"
  proof -
    have lt: "it < length (take (e - 1) (buf[it := buf ! (e - 1)]))"
      using assms by simp
    have "drop it (take (e - 1) (buf[it := buf ! (e - 1)])) =
          take (e - 1) (buf[it := buf ! (e - 1)]) ! it #
          drop (Suc it) (take (e - 1) (buf[it := buf ! (e - 1)]))"
      by (rule Cons_nth_drop_Suc[OF lt, symmetric])
    moreover have "take (e - 1) (buf[it := buf ! (e - 1)]) ! it = buf ! (e - 1)"
      using assms by simp
    moreover have "drop (Suc it) (take (e - 1) (buf[it := buf ! (e - 1)])) =
          drop (Suc it) (take (e - 1) buf)"
      by (simp add: take_update_swap drop_update_cancel del: drop_take)
    ultimately show ?thesis by simp
  qed
  with ne l b show ?thesis by (simp add: last_to_front_def)
qed

lemma delete_hazards_loop_spec:
  "it \<le> e \<Longrightarrow> e \<le> length buf \<Longrightarrow>
   delete_hazards_loop it e buf s = ((e1, b1), s1) \<Longrightarrow>
     take e1 b1 = take it buf @ fst (swap_remove_pass (hazarded s) (drop it (take e buf))) \<and>
     deleted s1 = deleted s @ snd (swap_remove_pass (hazarded s) (drop it (take e buf))) \<and>
     m_acquire_list s1 = m_acquire_list s \<and> atomics s1 = atomics s \<and>
     m_instance s1 = m_instance s"
proof (induction "e - it" arbitrary: it e buf s rule: less_induct)
  case less
  show ?case
  proof (cases "it < e")
    case False
    with less.prems have "it = e" by simp
    with less.prems(3) show ?thesis
      by (simp add: delete_hazards_loop.simps[of e e])
  next
    case True
    let ?s1 = "snd (scan_for_hazard (buf ! it) s)"
    have w: "drop it (take e buf) = buf ! it # drop (Suc it) (take e buf)"
      using True less.prems(2) by (rule window_Cons)
    show ?thesis
    proof (cases "hazarded s (buf ! it)")
      case h: True
      have step: "delete_hazards_loop (Suc it) e buf ?s1 = ((e1, b1), s1)"
        using less.prems(3) True h
        by (simp add: delete_hazards_loop.simps[of it e] split_beta scan_for_hazard_fst)
      have "e - Suc it < e - it" using True by simp
      from less.hyps[OF this _ less.prems(2) step] True
      have ih: "take e1 b1 = take (Suc it) buf @
            fst (swap_remove_pass (hazarded ?s1) (drop (Suc it) (take e buf)))"
        "deleted s1 = deleted ?s1 @
            snd (swap_remove_pass (hazarded ?s1) (drop (Suc it) (take e buf)))"
        "m_acquire_list s1 = m_acquire_list ?s1" "atomics s1 = atomics ?s1"
        "m_instance s1 = m_instance ?s1"
        by simp_all
      have hz: "hazarded ?s1 = hazarded s" by (rule hazarded_cong) simp
      have t: "take (Suc it) buf = take it buf @ [buf ! it]"
        using True less.prems(2) by (simp add: take_Suc_conv_app_nth)
      show ?thesis
        using ih h by (simp add: hz w t split_beta)
    next
      case nh: False
      let ?s2 = "?s1\<lparr>deleted := deleted ?s1 @ [buf ! it]\<rparr>"
      let ?b = "if it \<noteq> e - 1 then buf[it := buf ! (e - 1)] else buf"
      have step: "delete_hazards_loop it (e - 1) ?b ?s2 = ((e1, b1), s1)"
        using less.prems(3) True nh
        by (auto simp: delete_hazards_loop.simps[of it e] split_beta scan_for_hazard_fst Let_def
                 split: if_splits)
      have dec: "(e - 1) - it < e - it" using True by simp
      have le: "it \<le> e - 1" using True by simp
      have len: "e - 1 \<le> length ?b" using less.prems(2) by auto
      from less.hyps[OF dec le len step]
      have ih: "take e1 b1 = take it ?b @
            fst (swap_remove_pass (hazarded ?s2) (drop it (take (e - 1) ?b)))"
        "deleted s1 = deleted ?s2 @
            snd (swap_remove_pass (hazarded ?s2) (drop it (take (e - 1) ?b)))"
        "m_acquire_list s1 = m_acquire_list ?s2" "atomics s1 = atomics ?s2"
        "m_instance s1 = m_instance ?s2"
        by simp_all
      have hz: "hazarded ?s2 = hazarded s" by (rule hazarded_cong) simp
      have tk: "take it ?b = take it buf" by simp
      have win: "drop it (take (e - 1) ?b) = last_to_front (drop (Suc it) (take e buf))"
      proof (cases "it = e - 1")
        case True
        then show ?thesis by (simp add: last_to_front_def)
      next
        case False
        then have "Suc it < e" using True by simp
        from window_last[OF this less.prems(2)] False show ?thesis by simp
      qed
      show ?thesis
        using ih(1,2) nh unfolding hz tk win
        by (simp add: w split_beta ih(3-5))
    qed
  qed
qed

lemma delete_hazards_spec:
  "fst (delete_hazards buf s) = fst (swap_remove_pass (hazarded s) buf) \<and>
   deleted (snd (delete_hazards buf s)) = deleted s @ snd (swap_remove_pass (hazarded s) buf) \<and>
   m_acquire_list (snd (delete_hazards buf s)) = m_acquire_list s \<and>
   atomics (snd (delete_hazards buf s)) = atomics s \<and>
   m_instance (snd (delete_hazards buf s)) = m_instance s"
proof -
  obtain e1 b1 s1 where l: "delete_hazards_loop 0 (length buf) buf s = ((e1, b1), s1)"
    by (metis surj_pair)
  from delete_hazards_loop_spec[OF _ _ l] show ?thesis
    by (simp add: delete_hazards_def l)
qed

lemma hazarded_iff:
  "hazarded s p \<longleftrightarrow>
     (\<exists>i < max_objects s. m_acquire_list s ! i = p) \<and>
     p \<noteq> nullptr \<and> p \<noteq> reserved_sentinel \<and> p \<noteq> reserved_reset"
  by (auto simp: hazarded_def list_ex_iff in_set_conv_nth max_objects_def)

text \<open>
  Claim C4. \<open>delete_hazards\<close> makes one pass over the queue. The queue it leaves is
  the one the pass of removal by swapping with the last remaining element leaves, with
  the hazarded pointers as the entries to keep: it holds exactly the hazarded entries
  of the queue, each as often as it was queued, in an order that need not be the
  original one. The pointers deleted are exactly the other entries, each deleted once
  per occurrence. The cells are only read.
\<close>

theorem delete_hazards_keeps_exactly_hazarded:
  "fst (delete_hazards buf s) = fst (swap_remove_pass (hazarded s) buf) \<and>
   mset (fst (delete_hazards buf s)) = filter_mset (hazarded s) (mset buf) \<and>
   (\<exists>ds. deleted (snd (delete_hazards buf s)) = deleted s @ ds \<and>
         mset ds = filter_mset (\<lambda>p. \<not> hazarded s p) (mset buf)) \<and>
   m_acquire_list (snd (delete_hazards buf s)) = m_acquire_list s"
  using delete_hazards_spec[of buf s] mset_swap_remove_pass[of "hazarded s" buf]
  by simp

text \<open>
  The order is not preserved: with \<open>32\<close> and \<open>48\<close> protected, the queue
  \<open>[16, 32, 48]\<close> becomes \<open>[48, 32]\<close> and \<open>16\<close> is deleted.
\<close>

lemma delete_hazards_reorders:
  "fst (delete_hazards [16, 32, 48]
     \<lparr>m_acquire_list = [32, 48], m_instance = None, atomics = (\<lambda>_. 0),
      accesses = [], deleted = []\<rparr>) = [48, 32] \<and>
   deleted (snd (delete_hazards [16, 32, 48]
     \<lparr>m_acquire_list = [32, 48], m_instance = None, atomics = (\<lambda>_. 0),
      accesses = [], deleted = []\<rparr>)) = [16]"
  by code_simp

lemma delete_hazards_deleted:
  "\<exists>ds. deleted (snd (delete_hazards buf s)) = deleted s @ ds \<and>
        mset ds = filter_mset (\<lambda>p. \<not> hazarded s p) (mset buf)"
  using delete_hazards_spec[of buf s] mset_swap_remove_pass[of "hazarded s" buf]
  by simp

lemma delete_hazards_kept:
  "mset (fst (delete_hazards buf s)) = filter_mset (hazarded s) (mset buf)"
  using delete_hazards_spec[of buf s] mset_swap_remove_pass[of "hazarded s" buf]
  by simp

section \<open>Retirement and thread exit\<close>

text \<open>
  Claim C7. \<open>retire(ptr)\<close> appends \<open>ptr\<close> to the calling thread's queue. While the
  queue, after the append, is shorter than twice the number of cells, nothing else
  happens: the memory is the one before the call (no cell is read, nothing is deleted)
  and the queue is the old one with \<open>ptr\<close> at its end. Once the length has reached
  twice the number of cells, the call runs \<open>delete_hazards\<close> on the queue: the queue
  left holds exactly the hazarded entries and the others are deleted.
\<close>

theorem retire_triggers_at_threshold:
  "(length (buffer (tl_retires tls s)) + 1 < 2 * max_objects s \<longrightarrow>
      retire p tls s =
        (Some ((tl_retires tls s)\<lparr>buffer := buffer (tl_retires tls s) @ [p]\<rparr>), s)) \<and>
   (length (buffer (tl_retires tls s)) + 1 \<ge> 2 * max_objects s \<longrightarrow>
      retire p tls s =
        (Some ((tl_retires tls s)
           \<lparr>buffer := fst (delete_hazards (buffer (tl_retires tls s) @ [p]) s)\<rparr>),
         snd (delete_hazards (buffer (tl_retires tls s) @ [p]) s)) \<and>
      mset (buffer (the (fst (retire p tls s)))) =
        filter_mset (hazarded s) (mset (buffer (tl_retires tls s) @ [p])) \<and>
      (\<exists>ds. deleted (snd (retire p tls s)) = deleted s @ ds \<and>
            mset ds = filter_mset (\<lambda>q. \<not> hazarded s q)
                        (mset (buffer (tl_retires tls s) @ [p]))))"
proof (intro conjI impI)
  assume "length (buffer (tl_retires tls s)) + 1 < 2 * max_objects s"
  then show "retire p tls s =
        (Some ((tl_retires tls s)\<lparr>buffer := buffer (tl_retires tls s) @ [p]\<rparr>), s)"
    by (simp add: retire_def Let_def)
next
  assume a: "2 * max_objects s \<le> length (buffer (tl_retires tls s)) + 1"
  then show r: "retire p tls s =
        (Some ((tl_retires tls s)
           \<lparr>buffer := fst (delete_hazards (buffer (tl_retires tls s) @ [p]) s)\<rparr>),
         snd (delete_hazards (buffer (tl_retires tls s) @ [p]) s))"
    by (simp add: retire_def Let_def split_beta)
  show "mset (buffer (the (fst (retire p tls s)))) =
        filter_mset (hazarded s) (mset (buffer (tl_retires tls s) @ [p]))"
    unfolding r using delete_hazards_kept[of "buffer (tl_retires tls s) @ [p]" s] by simp
  show "\<exists>ds. deleted (snd (retire p tls s)) = deleted s @ ds \<and>
            mset ds = filter_mset (\<lambda>q. \<not> hazarded s q)
                        (mset (buffer (tl_retires tls s) @ [p]))"
    unfolding r using delete_hazards_deleted[of "buffer (tl_retires tls s) @ [p]" s] by simp
qed

text \<open>
  With one cell the threshold is two: the first \<open>retire\<close> of a thread only queues its
  pointer; the second runs the pass, which keeps the protected \<open>32\<close> and deletes
  \<open>16\<close>.
\<close>

theorem retire_triggers_at_threshold_witness:
  "length (buffer (tl_retires None
       \<lparr>m_acquire_list = [32], m_instance = Some 0, atomics = (\<lambda>_. 0),
        accesses = [], deleted = []\<rparr>)) + 1
     < 2 * max_objects \<lparr>m_acquire_list = [32], m_instance = Some 0, atomics = (\<lambda>_. 0),
        accesses = [], deleted = []\<rparr> \<and>
   retire 16 None
       \<lparr>m_acquire_list = [32], m_instance = Some 0, atomics = (\<lambda>_. 0),
        accesses = [], deleted = []\<rparr> =
     (Some \<lparr>buffer = [16], domain_ref = Some 0\<rparr>,
       \<lparr>m_acquire_list = [32], m_instance = Some 0, atomics = (\<lambda>_. 0),
        accesses = [], deleted = []\<rparr>) \<and>
   2 * max_objects \<lparr>m_acquire_list = [32], m_instance = Some 0, atomics = (\<lambda>_. 0),
        accesses = [], deleted = []\<rparr>
     \<le> length (buffer (tl_retires (Some \<lparr>buffer = [16], domain_ref = Some 0\<rparr>)
       \<lparr>m_acquire_list = [32], m_instance = Some 0, atomics = (\<lambda>_. 0),
        accesses = [], deleted = []\<rparr>)) + 1 \<and>
   mset (buffer (the (fst (retire 32 (Some \<lparr>buffer = [16], domain_ref = Some 0\<rparr>)
       \<lparr>m_acquire_list = [32], m_instance = Some 0, atomics = (\<lambda>_. 0),
        accesses = [], deleted = []\<rparr>)))) = {#32#} \<and>
   (\<exists>ds. deleted (snd (retire 32 (Some \<lparr>buffer = [16], domain_ref = Some 0\<rparr>)
       \<lparr>m_acquire_list = [32], m_instance = Some 0, atomics = (\<lambda>_. 0),
        accesses = [], deleted = []\<rparr>)) = [] @ ds \<and> mset ds = {#16#})"
proof -
  let ?s = "\<lparr>m_acquire_list = [32], m_instance = Some 0, atomics = (\<lambda>_. 0),
        accesses = [], deleted = []\<rparr>"
  let ?rb = "\<lparr>buffer = [16], domain_ref = Some 0\<rparr>"
  have h1: "length (buffer (tl_retires None ?s)) + 1 < 2 * max_objects ?s"
    by (simp add: tl_retires_def retire_buffer_ctor_def max_objects_def)
  have h2: "2 * max_objects ?s \<le> length (buffer (tl_retires (Some ?rb) ?s)) + 1"
    by (simp add: tl_retires_def max_objects_def)
  have hz: "\<not> hazarded ?s 16" "hazarded ?s 32"
    by (simp_all add: hazarded_def nullptr_def reserved_sentinel_def reserved_reset_def)
  from retire_triggers_at_threshold[of None ?s 16] h1
  have a: "retire 16 None ?s = (Some ?rb, ?s)"
    by (simp add: tl_retires_def retire_buffer_ctor_def)
  from retire_triggers_at_threshold[of "Some ?rb" ?s 32] h2
  have b0: "mset (buffer (the (fst (retire 32 (Some ?rb) ?s)))) =
        filter_mset (hazarded ?s) (mset (buffer (tl_retires (Some ?rb) ?s) @ [32]))"
    and b1: "\<exists>ds. deleted (snd (retire 32 (Some ?rb) ?s)) = deleted ?s @ ds \<and>
            mset ds = filter_mset (\<lambda>q. \<not> hazarded ?s q)
                        (mset (buffer (tl_retires (Some ?rb) ?s) @ [32]))"
    by blast+
  have f: "filter_mset (hazarded ?s) (mset (buffer (tl_retires (Some ?rb) ?s) @ [32])) = {#32#}"
    using hz by (simp add: tl_retires_def)
  have g: "filter_mset (\<lambda>q. \<not> hazarded ?s q)
             (mset (buffer (tl_retires (Some ?rb) ?s) @ [32])) = {#16#}"
    using hz by (simp add: tl_retires_def)
  have d: "deleted ?s = []" by simp
  note b = b0[unfolded f] b1[unfolded g d]
  from h1 a h2 b show ?thesis by blast
qed

lemma retire_all_below:
  "length (buffer rb) + length ps < 2 * max_objects s \<Longrightarrow>
   retire_all ps (Some rb) s = (Some (rb\<lparr>buffer := buffer rb @ ps\<rparr>), s)"
proof (induction ps arbitrary: rb)
  case Nil
  show ?case by simp
next
  case (Cons p ps)
  have "retire p (Some rb) s = (Some (rb\<lparr>buffer := buffer rb @ [p]\<rparr>), s)"
    using Cons.prems by (simp add: retire_def tl_retires_def Let_def)
  moreover have "retire_all ps (Some (rb\<lparr>buffer := buffer rb @ [p]\<rparr>)) s =
      (Some (rb\<lparr>buffer := buffer rb @ [p] @ ps\<rparr>), s)"
    using Cons.IH[of "rb\<lparr>buffer := buffer rb @ [p]\<rparr>"] Cons.prems by simp
  ultimately show ?case by simp
qed

lemma retire_all_fresh_below:
  assumes "length ps < 2 * max_objects s" "ps \<noteq> []"
  shows "retire_all ps None s = (Some \<lparr>buffer = ps, domain_ref = m_instance s\<rparr>, s)"
proof -
  obtain p qs where ps: "ps = p # qs" using assms(2) by (cases ps) auto
  have "retire p None s = (Some \<lparr>buffer = [p], domain_ref = m_instance s\<rparr>, s)"
    using assms(1) by (simp add: ps retire_def tl_retires_def retire_buffer_ctor_def Let_def)
  moreover have "retire_all qs (Some \<lparr>buffer = [p], domain_ref = m_instance s\<rparr>) s =
      (Some \<lparr>buffer = [p] @ qs, domain_ref = m_instance s\<rparr>, s)"
    using retire_all_below[of "\<lparr>buffer = [p], domain_ref = m_instance s\<rparr>" qs s] assms(1)
    by (simp add: ps)
  ultimately show ?thesis by (simp add: ps)
qed

lemma retire_buffer_dtor_deleted:
  "domain_ref rb \<noteq> None \<Longrightarrow>
   \<exists>ds. deleted (retire_buffer_dtor rb s) = deleted s @ ds \<and>
        mset ds = filter_mset (\<lambda>p. \<not> hazarded s p) (mset (buffer rb))"
  using delete_hazards_deleted[of "buffer rb" s]
  by (auto simp: retire_buffer_dtor_def)

text \<open>
  \<open>retire\<close> is a member function of a domain object, so a constructor of
  \<open>hazard_domain\<close> has run before the first call, and \<open>m_instance\<close> is not null.
\<close>

lemma hazard_domain_ctor_instance:
  "m_instance (hazard_domain_ctor this s) \<noteq> None"
  by (simp add: hazard_domain_ctor_def)

text \<open>
  Claim C8. A thread whose holder was made while \<open>m_instance\<close> was set runs, at its
  exit, one pass of \<open>delete_hazards\<close> over its queue. When the thread has retired the
  pointers \<open>ps\<close>, fewer than the threshold, no retirement ran a pass (the memory is
  unchanged and the queue is \<open>ps\<close>), and the exit, in whatever memory \<open>s1\<close> it finds,
  deletes exactly the entries of \<open>ps\<close> that are not hazarded in \<open>s1\<close>, each once per
  occurrence.
\<close>

theorem thread_exit_flushes_retire_queue:
  assumes "m_instance s \<noteq> None" and "length ps < 2 * max_objects s"
  shows "snd (retire_all ps None s) = s \<and>
         (ps \<noteq> [] \<longrightarrow> fst (retire_all ps None s) =
                          Some \<lparr>buffer = ps, domain_ref = m_instance s\<rparr>) \<and>
         (\<forall>s1. \<exists>ds. deleted (thread_exit (fst (retire_all ps None s)) s1) = deleted s1 @ ds \<and>
                  mset ds = filter_mset (\<lambda>p. \<not> hazarded s1 p) (mset ps))"
proof (cases "ps = []")
  case True
  then show ?thesis by (simp add: thread_exit_def)
next
  case False
  note r = retire_all_fresh_below[OF assms(2) False]
  have "\<exists>ds. deleted (thread_exit (fst (retire_all ps None s)) s1) = deleted s1 @ ds \<and>
                  mset ds = filter_mset (\<lambda>p. \<not> hazarded s1 p) (mset ps)" for s1
    using retire_buffer_dtor_deleted[of "\<lparr>buffer = ps, domain_ref = m_instance s\<rparr>" s1] assms(1)
    by (simp add: r thread_exit_def)
  then show ?thesis using False by (simp add: r)
qed

text \<open>
  Four cells, threshold eight: a thread retires \<open>16\<close>, \<open>32\<close> and \<open>48\<close> and exits
  while \<open>32\<close> is protected; the exit deletes \<open>16\<close> and \<open>48\<close>.
\<close>

theorem thread_exit_flushes_retire_queue_witness:
  "m_instance \<lparr>m_acquire_list = [nullptr, 32, reserved_reset, nullptr], m_instance = Some 0,
        atomics = (\<lambda>_. 0), accesses = [], deleted = []\<rparr> \<noteq> None \<and>
   length [16, 32, 48 :: ptr]
     < 2 * max_objects \<lparr>m_acquire_list = [nullptr, 32, reserved_reset, nullptr],
          m_instance = Some 0, atomics = (\<lambda>_. 0), accesses = [], deleted = []\<rparr> \<and>
   (\<exists>ds. deleted (thread_exit
            (fst (retire_all [16, 32, 48] None
               \<lparr>m_acquire_list = [nullptr, 32, reserved_reset, nullptr], m_instance = Some 0,
                atomics = (\<lambda>_. 0), accesses = [], deleted = []\<rparr>))
            \<lparr>m_acquire_list = [nullptr, 32, reserved_reset, nullptr], m_instance = Some 0,
             atomics = (\<lambda>_. 0), accesses = [], deleted = []\<rparr>) = [] @ ds \<and>
         mset ds = {#16, 48#})"
proof -
  let ?s = "\<lparr>m_acquire_list = [nullptr, 32, reserved_reset, nullptr], m_instance = Some 0,
        atomics = (\<lambda>_. 0), accesses = [], deleted = []\<rparr>"
  have h1: "m_instance ?s \<noteq> None" by simp
  have h2: "length [16, 32, 48 :: ptr] < 2 * max_objects ?s" by (simp add: max_objects_def)
  have hz: "\<not> hazarded ?s 16" "hazarded ?s 32" "\<not> hazarded ?s 48"
    by (simp_all add: hazarded_def nullptr_def reserved_sentinel_def reserved_reset_def)
  from thread_exit_flushes_retire_queue[OF h1 h2]
  have e: "\<exists>ds. deleted (thread_exit (fst (retire_all [16, 32, 48] None ?s)) ?s) = deleted ?s @ ds \<and>
          mset ds = filter_mset (\<lambda>p. \<not> hazarded ?s p) (mset [16, 32, 48])"
    by blast
  have g: "filter_mset (\<lambda>p. \<not> hazarded ?s p) (mset [16, 32, 48]) = {#16, 48#}"
    using hz by simp
  have d: "deleted ?s = []" by simp
  note e[unfolded g d]
  with h1 h2 show ?thesis by blast
qed

section \<open>The handle: protection\<close>

lemma try_protect_eq:
  "m_cell hp = Some c \<Longrightarrow>
   try_protect hp p src s =
     Inr ((atomics s src = p, atomics s src),
          s\<lparr>m_acquire_list :=
               (m_acquire_list s)[c := if atomics s src = p then p else reserved_reset],
            accesses := accesses s @
               [Store (Cell c) memory_order_seq_cst p,
                Load (Source src) memory_order_acquire (atomics s src)] @
               (if atomics s src = p then []
                else [Store (Cell c) memory_order_release reserved_reset])\<rparr>)"
  by (simp add: try_protect_def atomic_store_def atomic_load_def Let_def)

text \<open>
  Claim C3. On a handle that owns cell \<open>c\<close>, \<open>try_protect(candidate, source)\<close> makes
  these atomic accesses, in this order: a \<open>seq_cst\<close> store of the candidate into the
  cell, an \<open>acquire\<close> load of the source, and, only when the value loaded differs
  from the candidate, a \<open>release\<close> store of the RESET encoding into the cell. It
  returns true exactly when the value loaded equals the candidate, and the caller's
  \<open>ptr\<close> ends as the value loaded (on success that is the candidate itself). On
  failure the cell holds the RESET encoding, which is not null: the cell stays
  checked out.
\<close>

theorem try_protect_publish_then_validate:
  assumes "m_cell hp = Some c"
  shows "try_protect hp p src s =
     Inr ((atomics s src = p, atomics s src),
          s\<lparr>m_acquire_list :=
               (m_acquire_list s)[c := if atomics s src = p then p else reserved_reset],
            accesses := accesses s @
               [Store (Cell c) memory_order_seq_cst p,
                Load (Source src) memory_order_acquire (atomics s src)] @
               (if atomics s src = p then []
                else [Store (Cell c) memory_order_release reserved_reset])\<rparr>) \<and>
     reserved_reset \<noteq> nullptr"
  using assms by (simp add: try_protect_eq reserved_distinct)

theorem try_protect_publish_then_validate_witness:
  "m_cell \<lparr>m_cell = Some 0\<rparr> = Some (0::nat) \<and>
   try_protect \<lparr>m_cell = Some 0\<rparr> 9 0
      \<lparr>m_acquire_list = [reserved_sentinel], m_instance = None, atomics = (\<lambda>_. 5),
       accesses = [], deleted = []\<rparr> =
     Inr ((False, 5),
       \<lparr>m_acquire_list = [reserved_reset], m_instance = None, atomics = (\<lambda>_. 5),
        accesses = [Store (Cell 0) memory_order_seq_cst 9,
                    Load (Source 0) memory_order_acquire 5,
                    Store (Cell 0) memory_order_release reserved_reset],
        deleted = []\<rparr>) \<and>
   try_protect \<lparr>m_cell = Some 0\<rparr> 5 0
      \<lparr>m_acquire_list = [reserved_sentinel], m_instance = None, atomics = (\<lambda>_. 5),
       accesses = [], deleted = []\<rparr> =
     Inr ((True, 5),
       \<lparr>m_acquire_list = [5], m_instance = None, atomics = (\<lambda>_. 5),
        accesses = [Store (Cell 0) memory_order_seq_cst 5,
                    Load (Source 0) memory_order_acquire 5],
        deleted = []\<rparr>)"
  using try_protect_publish_then_validate
    [of "\<lparr>m_cell = Some 0\<rparr>" 0 9 0
        "\<lparr>m_acquire_list = [reserved_sentinel], m_instance = None, atomics = (\<lambda>_. 5),
          accesses = [], deleted = []\<rparr>"]
    try_protect_publish_then_validate
    [of "\<lparr>m_cell = Some 0\<rparr>" 0 5 0
        "\<lparr>m_acquire_list = [reserved_sentinel], m_instance = None, atomics = (\<lambda>_. 5),
          accesses = [], deleted = []\<rparr>"]
  by simp

text \<open>
  \<open>protect\<close>, with no other thread writing the source during the call: the first
  attempt of the loop succeeds, since its candidate is the value just loaded.
\<close>

lemma protect_loop_eq:
  "m_cell hp = Some c \<Longrightarrow>
   protect_loop hp src p s =
     Inr (atomics s src,
          s\<lparr>m_acquire_list := (m_acquire_list s)[c := atomics s src],
            accesses := accesses s @
               (if atomics s src = p then []
                else [Store (Cell c) memory_order_seq_cst p,
                      Load (Source src) memory_order_acquire (atomics s src),
                      Store (Cell c) memory_order_release reserved_reset]) @
               [Store (Cell c) memory_order_seq_cst (atomics s src),
                Load (Source src) memory_order_acquire (atomics s src)]\<rparr>)"
  by (simp add: protect_loop.simps[of hp src p] protect_loop.simps[of hp src "atomics s src"]
        try_protect_eq)

lemma protect_eq:
  "m_cell hp = Some c \<Longrightarrow>
   protect hp src s =
     Inr (atomics s src,
          s\<lparr>m_acquire_list := (m_acquire_list s)[c := atomics s src],
            accesses := accesses s @
               [Load (Source src) memory_order_relaxed (atomics s src),
                Store (Cell c) memory_order_seq_cst (atomics s src),
                Load (Source src) memory_order_acquire (atomics s src)]\<rparr>)"
  by (simp add: protect_def atomic_load_def Let_def protect_loop_eq)

text \<open>
  Claim C5, at the input where the code departs from it. The two reserved encodings
  differ from null (\<open>reserved_distinct\<close>), and an attempt with a candidate that is not
  null leaves the owned cell not null (\<open>owned_cell_not_free_unless_null_published\<close>).
  But a source that holds null makes \<open>try_protect\<close>, and so \<open>protect\<close>, store null
  into the owned cell and return with the cell in that state: with one cell, the next
  \<open>make_hazard_pointer\<close> captures the very cell the first handle still owns.
\<close>

theorem protect_null_source_frees_owned_cell:
  "(case make_hazard_pointer
           \<lparr>m_acquire_list = [nullptr], m_instance = None, atomics = (\<lambda>_. nullptr),
            accesses = [], deleted = []\<rparr> of
      Inl e \<Rightarrow> False
    | Inr (hp, s1) \<Rightarrow>
        m_cell hp = Some 0 \<and> m_acquire_list s1 = [reserved_sentinel] \<and>
        (case try_protect hp nullptr 0 s1 of
           Inl e \<Rightarrow> False
         | Inr ((ok, p), s2) \<Rightarrow>
             ok \<and> p = nullptr \<and> m_acquire_list s2 = [nullptr] \<and>
             (case make_hazard_pointer s2 of
                Inl e \<Rightarrow> False
              | Inr (hp2, s3) \<Rightarrow> m_cell hp2 = Some 0)) \<and>
        (case protect hp 0 s1 of
           Inl e \<Rightarrow> False
         | Inr (p, s2) \<Rightarrow>
             p = nullptr \<and> m_acquire_list s2 = [nullptr] \<and>
             (case make_hazard_pointer s2 of
                Inl e \<Rightarrow> False
              | Inr (hp2, s3) \<Rightarrow> m_cell hp2 = Some 0)))"
  by code_simp

lemma owned_cell_not_free_unless_null_published:
  assumes "m_cell hp = Some c" "c < max_objects s" "p \<noteq> nullptr"
  shows "\<exists>r s1. try_protect hp p src s = Inr (r, s1) \<and> m_acquire_list s1 ! c \<noteq> nullptr"
  using assms by (simp add: try_protect_eq max_objects_def reserved_distinct)

text \<open>
  The overload \<open>reset_protection(std::nullptr_t)\<close> stores the RESET encoding, not null.
\<close>

lemma reset_protection_nullptr_stores_reset:
  "m_cell hp = Some c \<Longrightarrow> c < max_objects s \<Longrightarrow>
   \<exists>s1. reset_protection_nullptr hp s = Inr s1 \<and> m_acquire_list s1 ! c = reserved_reset"
  by (simp add: reset_protection_nullptr_def reset_protection_def atomic_store_def
        max_objects_def)

section \<open>The scoped guard\<close>

text \<open>
  Claim C6. For a handle object that owns cell \<open>c\<close>, the constructor of \<open>guard\<close>
  returns what one call of \<open>protect(src)\<close> on that handle returns, with the pointer
  kept in \<open>m_ptr\<close>; its accesses are those of one \<open>protect\<close> (the relaxed load and
  one attempt). \<open>get\<close>, \<open>operator->\<close> and \<open>operator*\<close> read \<open>m_ptr\<close> only, so
  they give that pointer whatever the memory, the source included, has become. The
  destructor does what \<open>reset_protection()\<close> on the handle does, in any later memory
  \<open>s2\<close>: one \<open>release\<close> store of the RESET encoding into cell \<open>c\<close>.
\<close>

theorem guard_protects_once_and_resets:
  assumes "m_cell (objs hp) = Some c"
  shows "\<exists>g s1. guard_ctor hp src objs s = Inr (g, s1) \<and>
           protect (objs hp) src s = Inr (m_ptr g, s1) \<and>
           m_hp g = hp \<and>
           accesses s1 = accesses s @
              [Load (Source src) memory_order_relaxed (atomics s src),
               Store (Cell c) memory_order_seq_cst (atomics s src),
               Load (Source src) memory_order_acquire (atomics s src)] \<and>
           m_acquire_list s1 = (m_acquire_list s)[c := atomics s src] \<and>
           get g = atomics s src \<and> operator_arrow g = atomics s src \<and>
           operator_star g = atomics s src \<and>
           (\<forall>s2. guard_dtor g objs s2 = reset_protection (objs hp) s2 \<and>
                 guard_dtor g objs s2 =
                   Inr (s2\<lparr>m_acquire_list := (m_acquire_list s2)[c := reserved_reset],
                           accesses := accesses s2 @
                             [Store (Cell c) memory_order_release reserved_reset]\<rparr>))"
  using assms
  by (simp add: guard_ctor_def protect_eq get_def operator_arrow_def operator_star_def
        guard_dtor_def reset_protection_def atomic_store_def)

theorem guard_protects_once_and_resets_witness:
  "m_cell (((\<lambda>_. \<lparr>m_cell = None\<rparr>)(3 := \<lparr>m_cell = Some 0\<rparr>)) 3) = Some 0 \<and>
   (\<exists>g s1. guard_ctor 3 0 ((\<lambda>_. \<lparr>m_cell = None\<rparr>)(3 := \<lparr>m_cell = Some 0\<rparr>))
              \<lparr>m_acquire_list = [reserved_sentinel], m_instance = None, atomics = (\<lambda>_. 16),
               accesses = [], deleted = []\<rparr> = Inr (g, s1) \<and>
      get g = 16 \<and> m_acquire_list s1 = [16] \<and>
      (\<forall>s2. guard_dtor g ((\<lambda>_. \<lparr>m_cell = None\<rparr>)(3 := \<lparr>m_cell = Some 0\<rparr>)) s2 =
               Inr (s2\<lparr>m_acquire_list := (m_acquire_list s2)[0 := reserved_reset],
                       accesses := accesses s2 @
                         [Store (Cell 0) memory_order_release reserved_reset]\<rparr>)))"
proof -
  let ?objs = "(\<lambda>_. \<lparr>m_cell = None\<rparr>)(3 := \<lparr>m_cell = Some (0::nat)\<rparr>) :: handles"
  have h: "m_cell (?objs 3) = Some 0" by simp
  from guard_protects_once_and_resets[of ?objs 3 0 0
      "\<lparr>m_acquire_list = [reserved_sentinel], m_instance = None, atomics = (\<lambda>_. 16),
        accesses = [], deleted = []\<rparr>", OF h]
  show ?thesis
    using h by auto
qed

section \<open>The handle: ownership\<close>

text \<open>
  Claim C9. Between two distinct handle objects: move construction and move assignment
  give the destination the cell the source owned and leave the source with none, so
  that destroying the source afterwards changes no memory; no other handle object
  changes. Move assignment first releases the cell the destination owned, if it owned
  one: one \<open>release\<close> store of null. The destructor of a handle that owns cell \<open>c\<close>
  makes that one store to cell \<open>c\<close>; the destructor of an empty handle changes
  nothing.
\<close>

theorem hazard_pointer_move_and_destroy:
  "(this \<noteq> hp \<longrightarrow>
      m_cell (hazard_pointer_move_ctor this hp objs this) = m_cell (objs hp) \<and>
      m_cell (hazard_pointer_move_ctor this hp objs hp) = None \<and>
      (\<forall>h. h \<noteq> this \<and> h \<noteq> hp \<longrightarrow> hazard_pointer_move_ctor this hp objs h = objs h) \<and>
      hazard_pointer_dtor hp (hazard_pointer_move_ctor this hp objs) s = s) \<and>
   (this \<noteq> hp \<longrightarrow>
      m_cell (fst (hazard_pointer_move_assign this hp objs s) this) = m_cell (objs hp) \<and>
      m_cell (fst (hazard_pointer_move_assign this hp objs s) hp) = None \<and>
      (\<forall>h. h \<noteq> this \<and> h \<noteq> hp \<longrightarrow> fst (hazard_pointer_move_assign this hp objs s) h = objs h) \<and>
      snd (hazard_pointer_move_assign this hp objs s) =
        (case m_cell (objs this) of
           None \<Rightarrow> s
         | Some c \<Rightarrow> atomic_store (Cell c) nullptr memory_order_release s) \<and>
      hazard_pointer_dtor hp (fst (hazard_pointer_move_assign this hp objs s)) s1 = s1) \<and>
   (\<forall>c. m_cell (objs this) = Some c \<longrightarrow>
      hazard_pointer_dtor this objs s = atomic_store (Cell c) nullptr memory_order_release s \<and>
      m_acquire_list (hazard_pointer_dtor this objs s) = (m_acquire_list s)[c := nullptr]) \<and>
   (m_cell (objs this) = None \<longrightarrow> hazard_pointer_dtor this objs s = s)"
  by (auto simp: hazard_pointer_move_ctor_def hazard_pointer_move_assign_def
        hazard_pointer_dtor_def release_cell_def atomic_store_def Let_def
      split: option.splits)

text \<open>
  Handle \<open>0\<close> owns cell \<open>0\<close>, handle \<open>1\<close> owns cell \<open>1\<close>, handle \<open>2\<close> is empty.
\<close>

theorem hazard_pointer_move_and_destroy_witness:
  "(0::nat) \<noteq> 1 \<and>
   m_cell (fst (hazard_pointer_move_assign 0 1
       ((\<lambda>_. \<lparr>m_cell = None\<rparr>)(0 := \<lparr>m_cell = Some 0\<rparr>, 1 := \<lparr>m_cell = Some 1\<rparr>))
       \<lparr>m_acquire_list = [reserved_reset, 16], m_instance = None, atomics = (\<lambda>_. 16),
        accesses = [], deleted = []\<rparr>) 0) = Some 1 \<and>
   m_cell (fst (hazard_pointer_move_assign 0 1
       ((\<lambda>_. \<lparr>m_cell = None\<rparr>)(0 := \<lparr>m_cell = Some 0\<rparr>, 1 := \<lparr>m_cell = Some 1\<rparr>))
       \<lparr>m_acquire_list = [reserved_reset, 16], m_instance = None, atomics = (\<lambda>_. 16),
        accesses = [], deleted = []\<rparr>) 1) = None \<and>
   m_acquire_list (snd (hazard_pointer_move_assign 0 1
       ((\<lambda>_. \<lparr>m_cell = None\<rparr>)(0 := \<lparr>m_cell = Some 0\<rparr>, 1 := \<lparr>m_cell = Some 1\<rparr>))
       \<lparr>m_acquire_list = [reserved_reset, 16], m_instance = None, atomics = (\<lambda>_. 16),
        accesses = [], deleted = []\<rparr>)) = [nullptr, 16] \<and>
   m_cell (hazard_pointer_move_ctor 2 1
       ((\<lambda>_. \<lparr>m_cell = None\<rparr>)(0 := \<lparr>m_cell = Some 0\<rparr>, 1 := \<lparr>m_cell = Some 1\<rparr>)) 2) = Some 1 \<and>
   m_cell (hazard_pointer_move_ctor 2 1
       ((\<lambda>_. \<lparr>m_cell = None\<rparr>)(0 := \<lparr>m_cell = Some 0\<rparr>, 1 := \<lparr>m_cell = Some 1\<rparr>)) 1) = None \<and>
   m_acquire_list (hazard_pointer_dtor 1
       ((\<lambda>_. \<lparr>m_cell = None\<rparr>)(0 := \<lparr>m_cell = Some 0\<rparr>, 1 := \<lparr>m_cell = Some 1\<rparr>))
       \<lparr>m_acquire_list = [reserved_reset, 16], m_instance = None, atomics = (\<lambda>_. 16),
        accesses = [], deleted = []\<rparr>) = [reserved_reset, nullptr] \<and>
   hazard_pointer_dtor 2
       ((\<lambda>_. \<lparr>m_cell = None\<rparr>)(0 := \<lparr>m_cell = Some 0\<rparr>, 1 := \<lparr>m_cell = Some 1\<rparr>))
       \<lparr>m_acquire_list = [reserved_reset, 16], m_instance = None, atomics = (\<lambda>_. 16),
        accesses = [], deleted = []\<rparr> =
     \<lparr>m_acquire_list = [reserved_reset, 16], m_instance = None, atomics = (\<lambda>_. 16),
        accesses = [], deleted = []\<rparr>"
proof -
  let ?objs = "(\<lambda>_. \<lparr>m_cell = None\<rparr>)(0 := \<lparr>m_cell = Some 0\<rparr>, 1 := \<lparr>m_cell = Some 1\<rparr>) :: handles"
  let ?s = "\<lparr>m_acquire_list = [reserved_reset, 16], m_instance = None, atomics = (\<lambda>_. 16),
        accesses = [], deleted = []\<rparr>"
  note a = hazard_pointer_move_and_destroy[of 0 1 ?objs ?s ?s]
  note b = hazard_pointer_move_and_destroy[of 2 1 ?objs ?s ?s]
  note c = hazard_pointer_move_and_destroy[of 1 1 ?objs ?s ?s]
  have "m_cell (fst (hazard_pointer_move_assign 0 1 ?objs ?s) 0) = Some 1"
    "m_cell (fst (hazard_pointer_move_assign 0 1 ?objs ?s) 1) = None"
    "m_acquire_list (snd (hazard_pointer_move_assign 0 1 ?objs ?s)) = [nullptr, 16]"
    using a by (simp_all add: atomic_store_def)
  moreover have "m_cell (hazard_pointer_move_ctor 2 1 ?objs 2) = Some 1"
    "m_cell (hazard_pointer_move_ctor 2 1 ?objs 1) = None"
    "hazard_pointer_dtor 2 ?objs ?s = ?s"
    using b by simp_all
  moreover have "m_acquire_list (hazard_pointer_dtor 1 ?objs ?s) = [reserved_reset, nullptr]"
    using c by (simp add: atomic_store_def)
  ultimately show ?thesis by simp
qed

text \<open>Self-assignment is guarded: the handle keeps its cell and nothing is released.\<close>

lemma hazard_pointer_self_move_assign:
  "hazard_pointer_move_assign this this objs s = (objs, s)"
  by (simp add: hazard_pointer_move_assign_def)

lemma capture_cell_Inr:
  assumes "capture_cell s = Inr (c, s1)"
  shows "c < max_objects s" "m_acquire_list s ! c = nullptr"
    "\<forall>j<c. m_acquire_list s ! j \<noteq> nullptr"
    "m_acquire_list s1 = (m_acquire_list s)[c := reserved_sentinel]"
    "atomics s1 = atomics s" "deleted s1 = deleted s" "m_instance s1 = m_instance s"
proof -
  from assms obtain i where
    f: "List.find (\<lambda>i. m_acquire_list s ! i = nullptr) [0 ..< max_objects s] = Some i"
    by (auto simp: capture_cell_eq split: option.splits)
  with assms have c: "c = i"
    and s1: "s1 = s\<lparr>m_acquire_list := (m_acquire_list s)[i := reserved_sentinel],
                    accesses := accesses s @
                      map (\<lambda>j. Load (Cell j) memory_order_relaxed (m_acquire_list s ! j))
                        [0 ..< Suc i] @
                      [Cas (Cell i) memory_order_acq_rel nullptr reserved_sentinel True]\<rparr>"
    by (auto simp: capture_cell_eq)
  from f obtain k where k: "k < max_objects s"
      "m_acquire_list s ! ([0..<max_objects s] ! k) = nullptr"
      "i = [0..<max_objects s] ! k"
      "\<forall>j<k. m_acquire_list s ! ([0..<max_objects s] ! j) \<noteq> nullptr"
    by (auto simp: find_Some_iff)
  then show "c < max_objects s" "m_acquire_list s ! c = nullptr"
    "\<forall>j<c. m_acquire_list s ! j \<noteq> nullptr"
    using c by auto
  show "m_acquire_list s1 = (m_acquire_list s)[c := reserved_sentinel]"
    "atomics s1 = atomics s" "deleted s1 = deleted s" "m_instance s1 = m_instance s"
    using c s1 by simp_all
qed

lemma empty_hp_fst:
  "fst (empty_hp hp s) =
     (case m_cell hp of
        None \<Rightarrow> True
      | Some c \<Rightarrow> m_acquire_list s ! c = nullptr \<or> m_acquire_list s ! c = reserved_reset)"
  by (simp add: empty_hp_def atomic_load_def Let_def split: option.split)

text \<open>
  Claim C10. \<open>empty()\<close> is true for a handle with no cell, and for a handle with a
  cell exactly when the cell holds null or the RESET encoding. So a handle just made
  by \<open>make_hazard_pointer\<close>, whose cell holds the RESERVED sentinel, is not empty, and
  the same handle after \<open>reset_protection()\<close> is empty although it still owns its
  cell, which then holds the RESET encoding.
\<close>

theorem empty_hp_free_or_reset:
  "fst (empty_hp hp s) =
     (case m_cell hp of
        None \<Rightarrow> True
      | Some c \<Rightarrow> m_acquire_list s ! c = nullptr \<or> m_acquire_list s ! c = reserved_reset) \<and>
   (\<forall>hp1 s1. make_hazard_pointer s = Inr (hp1, s1) \<longrightarrow>
      m_cell hp1 \<noteq> None \<and> \<not> fst (empty_hp hp1 s1) \<and>
      (\<exists>s2. reset_protection hp1 s1 = Inr s2 \<and> fst (empty_hp hp1 s2) \<and>
            m_acquire_list s2 ! the (m_cell hp1) = reserved_reset))"
proof (intro conjI allI impI)
  show "fst (empty_hp hp s) =
     (case m_cell hp of
        None \<Rightarrow> True
      | Some c \<Rightarrow> m_acquire_list s ! c = nullptr \<or> m_acquire_list s ! c = reserved_reset)"
    by (rule empty_hp_fst)
next
  fix hp1 s1
  assume m: "make_hazard_pointer s = Inr (hp1, s1)"
  then obtain c where c: "capture_cell s = Inr (c, s1)" "hp1 = \<lparr>m_cell = Some c\<rparr>"
    by (auto simp: make_hazard_pointer_def split: sum.splits)
  note cc = capture_cell_Inr[OF c(1)]
  have len: "c < length (m_acquire_list s)" using cc(1) by (simp add: max_objects_def)
  show "m_cell hp1 \<noteq> None" using c(2) by simp
  show "\<not> fst (empty_hp hp1 s1)"
    using len by (simp add: empty_hp_fst c(2) cc(4) reserved_distinct)
  show "\<exists>s2. reset_protection hp1 s1 = Inr s2 \<and> fst (empty_hp hp1 s2) \<and>
            m_acquire_list s2 ! the (m_cell hp1) = reserved_reset"
    using len by (simp add: reset_protection_def empty_hp_fst c(2) cc(4) atomic_store_def)
qed

theorem empty_hp_free_or_reset_witness:
  "make_hazard_pointer \<lparr>m_acquire_list = [7, nullptr], m_instance = None, atomics = (\<lambda>_. 0),
      accesses = [], deleted = []\<rparr> =
     Inr (\<lparr>m_cell = Some 1\<rparr>,
       \<lparr>m_acquire_list = [7, reserved_sentinel], m_instance = None, atomics = (\<lambda>_. 0),
        accesses = [Load (Cell 0) memory_order_relaxed 7, Load (Cell 1) memory_order_relaxed nullptr,
                    Cas (Cell 1) memory_order_acq_rel nullptr reserved_sentinel True],
        deleted = []\<rparr>) \<and>
   \<not> fst (empty_hp \<lparr>m_cell = Some 1\<rparr>
       \<lparr>m_acquire_list = [7, reserved_sentinel], m_instance = None, atomics = (\<lambda>_. 0),
        accesses = [Load (Cell 0) memory_order_relaxed 7, Load (Cell 1) memory_order_relaxed nullptr,
                    Cas (Cell 1) memory_order_acq_rel nullptr reserved_sentinel True],
        deleted = []\<rparr>) \<and>
   (\<exists>s2. reset_protection \<lparr>m_cell = Some 1\<rparr>
       \<lparr>m_acquire_list = [7, reserved_sentinel], m_instance = None, atomics = (\<lambda>_. 0),
        accesses = [Load (Cell 0) memory_order_relaxed 7, Load (Cell 1) memory_order_relaxed nullptr,
                    Cas (Cell 1) memory_order_acq_rel nullptr reserved_sentinel True],
        deleted = []\<rparr> = Inr s2 \<and>
      fst (empty_hp \<lparr>m_cell = Some 1\<rparr> s2) \<and> m_acquire_list s2 ! 1 = reserved_reset)"
proof -
  let ?s = "\<lparr>m_acquire_list = [7, nullptr], m_instance = None, atomics = (\<lambda>_. 0),
      accesses = [], deleted = []\<rparr>"
  let ?s1 = "\<lparr>m_acquire_list = [7, reserved_sentinel], m_instance = None, atomics = (\<lambda>_. 0),
        accesses = [Load (Cell 0) memory_order_relaxed 7, Load (Cell 1) memory_order_relaxed nullptr,
                    Cas (Cell 1) memory_order_acq_rel nullptr reserved_sentinel True],
        deleted = []\<rparr>"
  have m: "make_hazard_pointer ?s = Inr (\<lparr>m_cell = Some 1\<rparr>, ?s1)"
    by (simp add: make_hazard_pointer_def capture_cell_def max_objects_def atomic_load_def
          compare_exchange_strong_def nullptr_def Let_def)
  from empty_hp_free_or_reset[of "\<lparr>m_cell = None\<rparr>" ?s] m
  have "\<not> fst (empty_hp \<lparr>m_cell = Some 1\<rparr> ?s1) \<and>
      (\<exists>s2. reset_protection \<lparr>m_cell = Some 1\<rparr> ?s1 = Inr s2 \<and>
            fst (empty_hp \<lparr>m_cell = Some 1\<rparr> s2) \<and>
            m_acquire_list s2 ! the (m_cell \<lparr>m_cell = Some (1::nat)\<rparr>) = reserved_reset)"
    by blast
  with m show ?thesis by simp
qed

section \<open>Interleavings: deletion and protection\<close>

lemma run_snoc: "run (sched @ [a]) sys = step a (run sched sys)"
  by (simp add: run_def)

lemma run_Nil: "run [] sys = sys"
  by (simp add: run_def)

lemma reader_step_frame:
  "max_objects (snd (reader_step r s)) = max_objects s \<and>
   deleted (snd (reader_step r s)) = deleted s"
  by (simp add: reader_step_def atomic_load_def atomic_store_def max_objects_def Let_def
      split: protect_pc.split)

text \<open>
  One step of a reclaimer, while cell \<open>c\<close> holds the real address \<open>p\<close>: a scan for
  \<open>p\<close> that has not gone past cell \<open>c\<close> cannot go past it, and a step that deletes
  does not delete \<open>p\<close>.
\<close>

lemma reclaimer_step_safe:
  assumes "c < max_objects s" "m_acquire_list s ! c = p"
    "p \<noteq> nullptr" "p \<noteq> reserved_sentinel" "p \<noteq> reserved_reset"
    "not_past c p d"
  shows "not_past c p (fst (reclaimer_step d s)) \<and>
         max_objects (snd (reclaimer_step d s)) = max_objects s \<and>
         m_acquire_list (snd (reclaimer_step d s)) = m_acquire_list s \<and>
         (\<exists>ds. deleted (snd (reclaimer_step d s)) = deleted s @ ds \<and> p \<notin> set ds)"
proof (cases "d_scan d")
  case None
  then show ?thesis
    by (simp add: reclaimer_step_def not_past_def)
next
  case (Some i)
  show ?thesis
  proof (cases "i < max_objects s")
    case True
    show ?thesis
    proof (cases "d_buffer d ! d_it d = p")
      case p: True
      with assms(6) Some have "i \<le> c" by (simp add: not_past_def)
      then show ?thesis
        using Some True p assms(2-5)
        by (cases "i = c")
           (auto simp: reclaimer_step_def not_past_def atomic_load_def Let_def max_objects_def)
    next
      case False
      then show ?thesis
        using Some True
        by (auto simp: reclaimer_step_def not_past_def atomic_load_def Let_def max_objects_def)
    qed
  next
    case False
    with assms(1,6) Some have "d_buffer d ! d_it d \<noteq> p"
      by (auto simp: not_past_def)
    then show ?thesis
      using Some False
      by (simp add: reclaimer_step_def not_past_def Let_def max_objects_def)
  qed
qed

lemma step_safe:
  assumes "c < max_objects (mem sys)" "m_acquire_list (mem sys) ! c = p"
    "p \<noteq> nullptr" "p \<noteq> reserved_sentinel" "p \<noteq> reserved_reset"
    "list_all (not_past c p) (reclaimers sys)"
  shows "list_all (not_past c p) (reclaimers (step a sys)) \<and>
         max_objects (mem (step a sys)) = max_objects (mem sys) \<and>
         (\<exists>ds. deleted (mem (step a sys)) = deleted (mem sys) @ ds \<and> p \<notin> set ds)"
proof (cases a)
  case (Reader_step k)
  then show ?thesis
    using assms(6) reader_step_frame[of "readers sys ! k" "mem sys"]
    by (simp add: split_beta)
next
  case (Reclaimer_step k)
  show ?thesis
  proof (cases "k < length (reclaimers sys)")
    case False
    then show ?thesis using assms(6) Reclaimer_step by simp
  next
    case True
    then have "not_past c p (reclaimers sys ! k)"
      using assms(6) by (simp add: list_all_length)
    from reclaimer_step_safe[OF assms(1-5) this]
    show ?thesis
      using True assms(6) Reclaimer_step
      by (auto simp: split_beta list_all_length nth_list_update)
  qed
next
  case (Source_store a v)
  then show ?thesis
    using assms(6) by (simp add: atomic_store_def max_objects_def)
qed

lemma holds_throughout_snoc:
  "holds_throughout c p (sched @ [a]) sys \<Longrightarrow>
   holds_throughout c p sched sys \<and> m_acquire_list (mem (run sched sys)) ! c = p"
  by (auto simp: holds_throughout_def list_all_iff)

lemma run_safe:
  assumes "c < max_objects (mem sys)"
    "p \<noteq> nullptr" "p \<noteq> reserved_sentinel" "p \<noteq> reserved_reset"
    "list_all (not_past c p) (reclaimers sys)"
  shows "holds_throughout c p sched sys \<Longrightarrow>
         list_all (not_past c p) (reclaimers (run sched sys)) \<and>
         max_objects (mem (run sched sys)) = max_objects (mem sys) \<and>
         (\<exists>ds. deleted (mem (run sched sys)) = deleted (mem sys) @ ds \<and> p \<notin> set ds)"
proof (induction sched rule: rev_induct)
  case Nil
  show ?case using assms(5) by (simp add: run_Nil)
next
  case (snoc a sched)
  from holds_throughout_snoc[OF snoc.prems]
  have h: "holds_throughout c p sched sys"
    and cell: "m_acquire_list (mem (run sched sys)) ! c = p"
    by simp_all
  from snoc.IH[OF h] obtain ds where
    ih: "list_all (not_past c p) (reclaimers (run sched sys))"
        "max_objects (mem (run sched sys)) = max_objects (mem sys)"
        "deleted (mem (run sched sys)) = deleted (mem sys) @ ds" "p \<notin> set ds"
    by auto
  have c: "c < max_objects (mem (run sched sys))" using assms(1) ih(2) by simp
  from step_safe[OF c cell assms(2-4) ih(1), of a] obtain ds1 where
    st: "list_all (not_past c p) (reclaimers (step a (run sched sys)))"
        "max_objects (mem (step a (run sched sys))) = max_objects (mem (run sched sys))"
        "deleted (mem (step a (run sched sys))) = deleted (mem (run sched sys)) @ ds1"
        "p \<notin> set ds1"
    by auto
  show ?case
    using st ih by (simp add: run_snoc)
qed

lemma not_past_about_to_delete:
  "not_past c p d \<Longrightarrow> c < max_objects s \<Longrightarrow> about_to_delete d s \<noteq> Some p"
  by (auto simp: not_past_def about_to_delete_def split: option.splits)

text \<open>
  Claim C1, as amended. For every schedule of readers, reclaimers and writers of the
  sources: when some cell \<open>c\<close> holds the real address \<open>p\<close> in every state of the run,
  and at the start no reclaimer is inside a scan for \<open>p\<close> that has already gone past
  cell \<open>c\<close>, then no step of the run deletes \<open>p\<close>, and at the end of the run no
  reclaimer is about to delete \<open>p\<close>. So a reclamation pass never deletes an object
  whose address a cell has held since before the scan for that object read that cell.
\<close>

theorem no_delete_of_pointer_held_since_scan:
  assumes "c < max_objects (mem sys)"
    and "p \<noteq> nullptr" and "p \<noteq> reserved_sentinel" and "p \<noteq> reserved_reset"
    and "list_all (not_past c p) (reclaimers sys)"
    and "holds_throughout c p sched sys"
  shows "p \<notin> set (deleted_during sched sys) \<and>
         list_all (\<lambda>d. about_to_delete d (mem (run sched sys)) \<noteq> Some p)
           (reclaimers (run sched sys))"
proof -
  from run_safe[OF assms] obtain ds where
    r: "list_all (not_past c p) (reclaimers (run sched sys))"
       "max_objects (mem (run sched sys)) = max_objects (mem sys)"
       "deleted (mem (run sched sys)) = deleted (mem sys) @ ds" "p \<notin> set ds"
    by auto
  have "c < max_objects (mem (run sched sys))" using assms(1) r(2) by simp
  with r(1) have "list_all (\<lambda>d. about_to_delete d (mem (run sched sys)) \<noteq> Some p)
           (reclaimers (run sched sys))"
    by (auto simp: list_all_iff dest: not_past_about_to_delete)
  then show ?thesis
    using r(3,4) by (simp add: deleted_during_def)
qed

text \<open>
  One cell, held by a reader that has returned from \<open>protect\<close> with \<open>16\<close>; a
  reclaimer with the queue \<open>[16, 48]\<close>; a writer replaces the source. The pass keeps
  \<open>16\<close> and deletes \<open>48\<close>.
\<close>

theorem no_delete_of_pointer_held_since_scan_witness:
  "(0::nat) < max_objects (mem
      \<lparr>mem = \<lparr>m_acquire_list = [16], m_instance = None, atomics = (\<lambda>_. 16),
               accesses = [], deleted = []\<rparr>,
        readers = [\<lparr>r_cell = 0, r_src = 0, r_ptr = 16, r_pc = Returned\<rparr>],
        reclaimers = [\<lparr>d_it = 0, d_end = 2, d_buffer = [16, 48], d_scan = None\<rparr>]\<rparr>) \<and>
   holds_throughout 0 16
     [Source_store 0 32, Reclaimer_step 0, Reader_step 0, Reclaimer_step 0, Reclaimer_step 0,
      Reclaimer_step 0, Reclaimer_step 0, Reclaimer_step 0]
     \<lparr>mem = \<lparr>m_acquire_list = [16], m_instance = None, atomics = (\<lambda>_. 16),
               accesses = [], deleted = []\<rparr>,
        readers = [\<lparr>r_cell = 0, r_src = 0, r_ptr = 16, r_pc = Returned\<rparr>],
        reclaimers = [\<lparr>d_it = 0, d_end = 2, d_buffer = [16, 48], d_scan = None\<rparr>]\<rparr> \<and>
   deleted_during
     [Source_store 0 32, Reclaimer_step 0, Reader_step 0, Reclaimer_step 0, Reclaimer_step 0,
      Reclaimer_step 0, Reclaimer_step 0, Reclaimer_step 0]
     \<lparr>mem = \<lparr>m_acquire_list = [16], m_instance = None, atomics = (\<lambda>_. 16),
               accesses = [], deleted = []\<rparr>,
        readers = [\<lparr>r_cell = 0, r_src = 0, r_ptr = 16, r_pc = Returned\<rparr>],
        reclaimers = [\<lparr>d_it = 0, d_end = 2, d_buffer = [16, 48], d_scan = None\<rparr>]\<rparr> = [48] \<and>
   16 \<notin> set (deleted_during
     [Source_store 0 32, Reclaimer_step 0, Reader_step 0, Reclaimer_step 0, Reclaimer_step 0,
      Reclaimer_step 0, Reclaimer_step 0, Reclaimer_step 0]
     \<lparr>mem = \<lparr>m_acquire_list = [16], m_instance = None, atomics = (\<lambda>_. 16),
               accesses = [], deleted = []\<rparr>,
        readers = [\<lparr>r_cell = 0, r_src = 0, r_ptr = 16, r_pc = Returned\<rparr>],
        reclaimers = [\<lparr>d_it = 0, d_end = 2, d_buffer = [16, 48], d_scan = None\<rparr>]\<rparr>)"
proof -
  let ?sys = "\<lparr>mem = \<lparr>m_acquire_list = [16], m_instance = None, atomics = (\<lambda>_. 16),
               accesses = [], deleted = []\<rparr>,
        readers = [\<lparr>r_cell = 0, r_src = 0, r_ptr = 16, r_pc = Returned\<rparr>],
        reclaimers = [\<lparr>d_it = 0, d_end = 2, d_buffer = [16, 48], d_scan = None\<rparr>]\<rparr>"
  let ?sched = "[Source_store 0 32, Reclaimer_step 0, Reader_step 0, Reclaimer_step 0,
      Reclaimer_step 0, Reclaimer_step 0, Reclaimer_step 0, Reclaimer_step 0]"
  have c: "0 < max_objects (mem ?sys)" by code_simp
  have p: "(16::ptr) \<noteq> nullptr" "(16::ptr) \<noteq> reserved_sentinel" "(16::ptr) \<noteq> reserved_reset"
    by code_simp+
  have n: "list_all (not_past 0 16) (reclaimers ?sys)" by code_simp
  have h: "holds_throughout 0 16 ?sched ?sys" by code_simp
  have d: "deleted_during ?sched ?sys = [48]" by code_simp
  from no_delete_of_pointer_held_since_scan[OF c p n h] c h d show ?thesis
    by blast
qed

text \<open>
  The claim as it is written fails. One cell, owned by a reader that starts
  \<open>protect(src)\<close> while the source holds \<open>16\<close>; a reclaimer whose queue will be
  \<open>[16, 48]\<close>. The reader loads its guess \<open>16\<close>; the writer replaces the source by
  \<open>32\<close> and retires \<open>16\<close>, which brings its queue to the threshold; the pass
  starts and loads the cell, which holds the RESET encoding; the reader stores \<open>16\<close>
  into the cell. Now the scan has found
  nothing, the next step of the reclaimer deletes \<open>16\<close>, and the cell holds \<open>16\<close>:
  a scan started now would report the hazard. The deletion happens with the cell
  still holding \<open>16\<close>. (The reader's reload then sees \<open>32\<close>, so it resets the cell
  and never uses \<open>16\<close>.)
\<close>

theorem delete_while_cell_holds_counterexample:
  "about_to_delete
     (reclaimers (run [Reader_step 0, Source_store 0 32, Reclaimer_step 0, Reclaimer_step 0,
                       Reader_step 0]
        \<lparr>mem = \<lparr>m_acquire_list = [reserved_reset], m_instance = None, atomics = (\<lambda>_. 16),
                 accesses = [], deleted = []\<rparr>,
          readers = [\<lparr>r_cell = 0, r_src = 0, r_ptr = 0, r_pc = Load_guess\<rparr>],
          reclaimers = [\<lparr>d_it = 0, d_end = 2, d_buffer = [16, 48], d_scan = None\<rparr>]\<rparr>) ! 0)
     (mem (run [Reader_step 0, Source_store 0 32, Reclaimer_step 0, Reclaimer_step 0,
                Reader_step 0]
        \<lparr>mem = \<lparr>m_acquire_list = [reserved_reset], m_instance = None, atomics = (\<lambda>_. 16),
                 accesses = [], deleted = []\<rparr>,
          readers = [\<lparr>r_cell = 0, r_src = 0, r_ptr = 0, r_pc = Load_guess\<rparr>],
          reclaimers = [\<lparr>d_it = 0, d_end = 2, d_buffer = [16, 48], d_scan = None\<rparr>]\<rparr>)) = Some 16 \<and>
   m_acquire_list
     (mem (run [Reader_step 0, Source_store 0 32, Reclaimer_step 0, Reclaimer_step 0,
                Reader_step 0]
        \<lparr>mem = \<lparr>m_acquire_list = [reserved_reset], m_instance = None, atomics = (\<lambda>_. 16),
                 accesses = [], deleted = []\<rparr>,
          readers = [\<lparr>r_cell = 0, r_src = 0, r_ptr = 0, r_pc = Load_guess\<rparr>],
          reclaimers = [\<lparr>d_it = 0, d_end = 2, d_buffer = [16, 48], d_scan = None\<rparr>]\<rparr>)) = [16] \<and>
   fst (scan_for_hazard 16
     (mem (run [Reader_step 0, Source_store 0 32, Reclaimer_step 0, Reclaimer_step 0,
                Reader_step 0]
        \<lparr>mem = \<lparr>m_acquire_list = [reserved_reset], m_instance = None, atomics = (\<lambda>_. 16),
                 accesses = [], deleted = []\<rparr>,
          readers = [\<lparr>r_cell = 0, r_src = 0, r_ptr = 0, r_pc = Load_guess\<rparr>],
          reclaimers = [\<lparr>d_it = 0, d_end = 2, d_buffer = [16, 48], d_scan = None\<rparr>]\<rparr>))) \<and>
   deleted
     (mem (run [Reader_step 0, Source_store 0 32, Reclaimer_step 0, Reclaimer_step 0,
                Reader_step 0, Reclaimer_step 0]
        \<lparr>mem = \<lparr>m_acquire_list = [reserved_reset], m_instance = None, atomics = (\<lambda>_. 16),
                 accesses = [], deleted = []\<rparr>,
          readers = [\<lparr>r_cell = 0, r_src = 0, r_ptr = 0, r_pc = Load_guess\<rparr>],
          reclaimers = [\<lparr>d_it = 0, d_end = 2, d_buffer = [16, 48], d_scan = None\<rparr>]\<rparr>)) = [16] \<and>
   m_acquire_list
     (mem (run [Reader_step 0, Source_store 0 32, Reclaimer_step 0, Reclaimer_step 0,
                Reader_step 0, Reclaimer_step 0]
        \<lparr>mem = \<lparr>m_acquire_list = [reserved_reset], m_instance = None, atomics = (\<lambda>_. 16),
                 accesses = [], deleted = []\<rparr>,
          readers = [\<lparr>r_cell = 0, r_src = 0, r_ptr = 0, r_pc = Load_guess\<rparr>],
          reclaimers = [\<lparr>d_it = 0, d_end = 2, d_buffer = [16, 48], d_scan = None\<rparr>]\<rparr>)) = [16]"
  by code_simp

text \<open>
  The same schedule continued: the reader's reload sees \<open>32\<close>, it stores the RESET
  encoding, publishes \<open>32\<close>, reloads and returns \<open>32\<close>; it never returns the
  deleted \<open>16\<close>.
\<close>

lemma reader_after_late_publish_retries:
  "readers
     (run [Reader_step 0, Source_store 0 32, Reclaimer_step 0, Reclaimer_step 0,
           Reader_step 0, Reclaimer_step 0, Reader_step 0, Reader_step 0, Reader_step 0,
           Reader_step 0]
        \<lparr>mem = \<lparr>m_acquire_list = [reserved_reset], m_instance = None, atomics = (\<lambda>_. 16),
                 accesses = [], deleted = []\<rparr>,
          readers = [\<lparr>r_cell = 0, r_src = 0, r_ptr = 0, r_pc = Load_guess\<rparr>],
          reclaimers = [\<lparr>d_it = 0, d_end = 2, d_buffer = [16, 48], d_scan = None\<rparr>]\<rparr>) =
     [\<lparr>r_cell = 0, r_src = 0, r_ptr = 32, r_pc = Returned\<rparr>] \<and>
   accesses (mem
     (run [Reader_step 0, Source_store 0 32, Reclaimer_step 0, Reclaimer_step 0,
           Reader_step 0, Reclaimer_step 0, Reader_step 0, Reader_step 0, Reader_step 0,
           Reader_step 0]
        \<lparr>mem = \<lparr>m_acquire_list = [reserved_reset], m_instance = None, atomics = (\<lambda>_. 16),
                 accesses = [], deleted = []\<rparr>,
          readers = [\<lparr>r_cell = 0, r_src = 0, r_ptr = 0, r_pc = Load_guess\<rparr>],
          reclaimers = [\<lparr>d_it = 0, d_end = 2, d_buffer = [16, 48], d_scan = None\<rparr>]\<rparr>)) =
     [Load (Source 0) memory_order_relaxed 16,
      Store (Source 0) memory_order_seq_cst 32,
      Load (Cell 0) memory_order_seq_cst reserved_reset,
      Store (Cell 0) memory_order_seq_cst 16,
      Load (Source 0) memory_order_acquire 32,
      Store (Cell 0) memory_order_release reserved_reset,
      Store (Cell 0) memory_order_seq_cst 32,
      Load (Source 0) memory_order_acquire 32]"
  by code_simp

section \<open>The threads run alone: agreement with the operations\<close>

text \<open>
  A reclaimer that runs with no other thread taking a step finishes after finitely
  many steps, with the queue and the memory that \<open>delete_hazards\<close> returns; a
  reader that runs alone returns after three steps, with what \<open>protect\<close> returns.
\<close>

lemma reclaimer_run_add:
  "reclaimer_run (m + n) d s = (let (d1, s1) = reclaimer_run m d s in reclaimer_run n d1 s1)"
  by (induction m arbitrary: d s) (simp_all add: split_beta)

lemma reclaimer_run_then:
  "reclaimer_run m d s = (d1, s1) \<Longrightarrow> reclaimer_run n d1 s1 = r \<Longrightarrow>
   reclaimer_run (m + n) d s = r"
  by (simp add: reclaimer_run_add)

lemma reclaimer_scan_alone:
  "d_scan d = Some i \<Longrightarrow> i \<le> max_objects s \<Longrightarrow>
   \<exists>n. reclaimer_run n d s =
     (if fst (scan_for_hazard_loop [i ..< max_objects s] (d_buffer d ! d_it d) s)
      then d\<lparr>d_it := d_it d + 1, d_scan := None\<rparr>
      else d\<lparr>d_scan := Some (max_objects s)\<rparr>,
      snd (scan_for_hazard_loop [i ..< max_objects s] (d_buffer d ! d_it d) s))"
proof (induction "max_objects s - i" arbitrary: d i s)
  case 0
  then have "i = max_objects s" by simp
  with 0 have "reclaimer_run 0 d s =
     (if fst (scan_for_hazard_loop [i ..< max_objects s] (d_buffer d ! d_it d) s)
      then d\<lparr>d_it := d_it d + 1, d_scan := None\<rparr>
      else d\<lparr>d_scan := Some (max_objects s)\<rparr>,
      snd (scan_for_hazard_loop [i ..< max_objects s] (d_buffer d ! d_it d) s))"
    by simp
  then show ?case by blast
next
  case (Suc k)
  then have lt: "i < max_objects s" by simp
  let ?p = "d_buffer d ! d_it d"
  let ?h = "m_acquire_list s ! i"
  let ?s1 = "s\<lparr>accesses := accesses s @ [Load (Cell i) memory_order_seq_cst ?h]\<rparr>"
  have upt: "[i ..< max_objects s] = i # [Suc i ..< max_objects s]"
    using lt by (simp add: upt_conv_Cons)
  have m1: "max_objects ?s1 = max_objects s" by (simp add: max_objects_def)
  show ?case
  proof (cases "?h \<noteq> nullptr \<and> ?h \<noteq> reserved_sentinel \<and> ?h \<noteq> reserved_reset \<and> ?h = ?p")
    case True
    have st: "reclaimer_step d s = (d\<lparr>d_it := d_it d + 1, d_scan := None\<rparr>, ?s1)"
      using Suc.prems(1) lt True
      by (auto simp: reclaimer_step_def atomic_load_def Let_def)
    have sc: "scan_for_hazard_loop [i ..< max_objects s] ?p s = (True, ?s1)"
      using True by (auto simp: upt atomic_load_def Let_def)
    have "reclaimer_run (Suc 0) d s =
     (if fst (scan_for_hazard_loop [i ..< max_objects s] ?p s)
      then d\<lparr>d_it := d_it d + 1, d_scan := None\<rparr>
      else d\<lparr>d_scan := Some (max_objects s)\<rparr>,
      snd (scan_for_hazard_loop [i ..< max_objects s] ?p s))"
      unfolding sc by (simp add: st)
    then show ?thesis by blast
  next
    case False
    let ?d1 = "d\<lparr>d_scan := Some (Suc i)\<rparr>"
    have st: "reclaimer_step d s = (?d1, ?s1)"
      using Suc.prems(1) lt False
      by (auto simp: reclaimer_step_def atomic_load_def Let_def)
    have k: "k = max_objects ?s1 - Suc i" using Suc.hyps(2) by (simp add: m1)
    have "\<exists>n. reclaimer_run n ?d1 ?s1 =
     (if fst (scan_for_hazard_loop [Suc i ..< max_objects ?s1] (d_buffer ?d1 ! d_it ?d1) ?s1)
      then ?d1\<lparr>d_it := d_it ?d1 + 1, d_scan := None\<rparr>
      else ?d1\<lparr>d_scan := Some (max_objects ?s1)\<rparr>,
      snd (scan_for_hazard_loop [Suc i ..< max_objects ?s1] (d_buffer ?d1 ! d_it ?d1) ?s1))"
      by (rule Suc.hyps(1)[OF k]) (use lt in \<open>simp_all add: m1\<close>)
    then obtain n where n: "reclaimer_run n ?d1 ?s1 =
     (if fst (scan_for_hazard_loop [Suc i ..< max_objects s] ?p ?s1)
      then d\<lparr>d_it := d_it d + 1, d_scan := None\<rparr>
      else d\<lparr>d_scan := Some (max_objects s)\<rparr>,
      snd (scan_for_hazard_loop [Suc i ..< max_objects s] ?p ?s1))"
      by (auto simp: m1 cong: if_cong)
    have "reclaimer_run (Suc n) d s =
     (if fst (scan_for_hazard_loop [i ..< max_objects s] ?p s)
      then d\<lparr>d_it := d_it d + 1, d_scan := None\<rparr>
      else d\<lparr>d_scan := Some (max_objects s)\<rparr>,
      snd (scan_for_hazard_loop [i ..< max_objects s] ?p s))"
    proof -
      have sc: "scan_for_hazard_loop [i ..< max_objects s] ?p s =
            scan_for_hazard_loop [Suc i ..< max_objects s] ?p ?s1"
        using False by (auto simp: upt atomic_load_def Let_def)
      show ?thesis unfolding sc by (simp add: st n)
    qed
    then show ?thesis by blast
  qed
qed

lemma scan_for_hazard_max_objects [simp]:
  "max_objects (snd (scan_for_hazard p s)) = max_objects s"
  by (simp add: max_objects_def)

lemma reclaimer_pass_alone:
  "d_scan d = None \<Longrightarrow> d_it d \<le> d_end d \<Longrightarrow>
   \<exists>n d1. reclaimer_run n d s =
            (d1, snd (delete_hazards_loop (d_it d) (d_end d) (d_buffer d) s)) \<and>
          d_scan d1 = None \<and> d_it d1 = d_end d1 \<and>
          (d_end d1, d_buffer d1) = fst (delete_hazards_loop (d_it d) (d_end d) (d_buffer d) s)"
proof (induction "d_end d - d_it d" arbitrary: d s rule: less_induct)
  case less
  show ?case
  proof (cases "d_it d < d_end d")
    case False
    with less.prems have eq: "d_it d = d_end d" by simp
    have "reclaimer_run 0 d s =
            (d, snd (delete_hazards_loop (d_it d) (d_end d) (d_buffer d) s)) \<and>
          d_scan d = None \<and> d_it d = d_end d \<and>
          (d_end d, d_buffer d) = fst (delete_hazards_loop (d_it d) (d_end d) (d_buffer d) s)"
      using less.prems(1) eq by (simp add: delete_hazards_loop.simps[of "d_end d" "d_end d"])
    then show ?thesis by blast
  next
    case True
    let ?p = "d_buffer d ! d_it d"
    let ?d0 = "d\<lparr>d_scan := Some 0\<rparr>"
    let ?s1 = "snd (scan_for_hazard ?p s)"
    have st0: "reclaimer_run 1 d s = (?d0, s)"
      using less.prems(1) True by (simp add: reclaimer_step_def)
    from reclaimer_scan_alone[of ?d0 0 s] obtain n1 where
      n1: "reclaimer_run n1 ?d0 s =
        (if hazarded s ?p then d\<lparr>d_it := d_it d + 1, d_scan := None\<rparr>
         else d\<lparr>d_scan := Some (max_objects s)\<rparr>, ?s1)"
      by (auto simp: scan_for_hazard_def[symmetric] scan_for_hazard_fst cong: if_cong)
    show ?thesis
    proof (cases "hazarded s ?p")
      case h: True
      let ?d2 = "d\<lparr>d_it := d_it d + 1, d_scan := None\<rparr>"
      have r2: "reclaimer_run (1 + n1) d s = (?d2, ?s1)"
        using reclaimer_run_then[OF st0, of n1] n1 h by simp
      have L: "delete_hazards_loop (d_it d) (d_end d) (d_buffer d) s =
               delete_hazards_loop (d_it ?d2) (d_end ?d2) (d_buffer ?d2) ?s1"
        using True h
        by (simp add: delete_hazards_loop.simps[of "d_it d" "d_end d"] split_beta
              scan_for_hazard_fst)
      have dec: "d_end ?d2 - d_it ?d2 < d_end d - d_it d" using True by simp
      have pre: "d_scan ?d2 = None" "d_it ?d2 \<le> d_end ?d2" using True by simp_all
      from less.hyps[OF dec pre, of ?s1] obtain n d1 where
        ih: "reclaimer_run n ?d2 ?s1 =
            (d1, snd (delete_hazards_loop (d_it ?d2) (d_end ?d2) (d_buffer ?d2) ?s1))"
          "d_scan d1 = None" "d_it d1 = d_end d1"
          "(d_end d1, d_buffer d1) =
             fst (delete_hazards_loop (d_it ?d2) (d_end ?d2) (d_buffer ?d2) ?s1)"
        by blast
      have "reclaimer_run ((1 + n1) + n) d s =
            (d1, snd (delete_hazards_loop (d_it d) (d_end d) (d_buffer d) s))"
        unfolding L using reclaimer_run_then[OF r2 ih(1)] .
      with ih(2-4) show ?thesis unfolding L by blast
    next
      case nh: False
      let ?dN = "d\<lparr>d_scan := Some (max_objects s)\<rparr>"
      let ?s2 = "?s1\<lparr>deleted := deleted ?s1 @ [?p]\<rparr>"
      let ?b = "if d_it d \<noteq> d_end d - 1 then (d_buffer d)[d_it d := d_buffer d ! (d_end d - 1)]
                else d_buffer d"
      let ?d3 = "d\<lparr>d_end := d_end d - 1, d_buffer := ?b, d_scan := None\<rparr>"
      have r2: "reclaimer_run (1 + n1) d s = (?dN, ?s1)"
        using reclaimer_run_then[OF st0, of n1] n1 nh by simp
      have st3: "reclaimer_run 1 ?dN ?s1 = (?d3, ?s2)"
        by (simp add: reclaimer_step_def Let_def)
      have r3: "reclaimer_run ((1 + n1) + 1) d s = (?d3, ?s2)"
        using reclaimer_run_then[OF r2 st3] .
      have L: "delete_hazards_loop (d_it d) (d_end d) (d_buffer d) s =
               delete_hazards_loop (d_it ?d3) (d_end ?d3) (d_buffer ?d3) ?s2"
        using True nh
        by (simp add: delete_hazards_loop.simps[of "d_it d" "d_end d"] split_beta
              scan_for_hazard_fst Let_def)
      have dec: "d_end ?d3 - d_it ?d3 < d_end d - d_it d" using True by simp
      have pre: "d_scan ?d3 = None" "d_it ?d3 \<le> d_end ?d3" using True by simp_all
      from less.hyps[OF dec pre, of ?s2] obtain n d1 where
        ih: "reclaimer_run n ?d3 ?s2 =
            (d1, snd (delete_hazards_loop (d_it ?d3) (d_end ?d3) (d_buffer ?d3) ?s2))"
          "d_scan d1 = None" "d_it d1 = d_end d1"
          "(d_end d1, d_buffer d1) =
             fst (delete_hazards_loop (d_it ?d3) (d_end ?d3) (d_buffer ?d3) ?s2)"
        by blast
      have "reclaimer_run (((1 + n1) + 1) + n) d s =
            (d1, snd (delete_hazards_loop (d_it d) (d_end d) (d_buffer d) s))"
        unfolding L using reclaimer_run_then[OF r3 ih(1)] .
      with ih(2-4) show ?thesis unfolding L by blast
    qed
  qed
qed

lemma reclaimer_alone_is_delete_hazards:
  "\<exists>n d1. reclaimer_run n \<lparr>d_it = 0, d_end = length buf, d_buffer = buf, d_scan = None\<rparr> s =
            (d1, snd (delete_hazards buf s)) \<and>
          d_scan d1 = None \<and> d_it d1 = d_end d1 \<and>
          take (d_end d1) (d_buffer d1) = fst (delete_hazards buf s)"
proof -
  let ?d = "\<lparr>d_it = 0, d_end = length buf, d_buffer = buf, d_scan = None\<rparr>"
  from reclaimer_pass_alone[of ?d s] obtain n d1 where
    r: "reclaimer_run n ?d s = (d1, snd (delete_hazards_loop 0 (length buf) buf s))"
       "d_scan d1 = None" "d_it d1 = d_end d1"
       "(d_end d1, d_buffer d1) = fst (delete_hazards_loop 0 (length buf) buf s)"
    by auto
  have "snd (delete_hazards buf s) = snd (delete_hazards_loop 0 (length buf) buf s)"
    "fst (delete_hazards buf s) = take (d_end d1) (d_buffer d1)"
    using r(4) by (simp_all add: delete_hazards_def split_beta flip: r(4))
  with r show ?thesis by metis
qed

lemma reader_alone_is_protect:
  "(let (r1, s1) = reader_step \<lparr>r_cell = c, r_src = src, r_ptr = p0, r_pc = Load_guess\<rparr> s;
        (r2, s2) = reader_step r1 s1;
        (r3, s3) = reader_step r2 s2
    in r_pc r3 = Returned \<and> Inr (r_ptr r3, s3) = protect \<lparr>m_cell = Some c\<rparr> src s)"
  by (simp add: reader_step_def atomic_load_def atomic_store_def Let_def protect_eq)

section \<open>Interleavings: a validated protection\<close>

lemma reader_step_cell:
  "r_cell (fst (reader_step r s)) = r_cell r"
  by (simp add: reader_step_def atomic_load_def Let_def split: protect_pc.split)

lemma reader_step_other_cell:
  "r_cell r \<noteq> c \<Longrightarrow> m_acquire_list (snd (reader_step r s)) ! c = m_acquire_list s ! c"
  by (simp add: reader_step_def atomic_load_def atomic_store_def Let_def
      split: protect_pc.split)

lemma reader_step_Returned:
  "r_pc r = Returned \<Longrightarrow> reader_step r s = (r, s)"
  by (simp add: reader_step_def)

lemma reclaimer_step_cells:
  "m_acquire_list (snd (reclaimer_step d s)) = m_acquire_list s"
  by (simp add: reclaimer_step_def atomic_load_def Let_def split: option.split)

lemma step_keeps_returned_reader:
  assumes "k < length (readers sys)" "r_pc (readers sys ! k) = Returned"
    "r_cell (readers sys ! k) = c" "distinct (map r_cell (readers sys))"
  shows "readers (step a sys) ! k = readers sys ! k \<and>
         map r_cell (readers (step a sys)) = map r_cell (readers sys) \<and>
         m_acquire_list (mem (step a sys)) ! c = m_acquire_list (mem sys) ! c"
proof (cases a)
  case (Reader_step j)
  show ?thesis
  proof (cases "j < length (readers sys)")
    case False
    then show ?thesis using Reader_step by simp
  next
    case j: True
    show ?thesis
    proof (cases "j = k")
      case True
      then show ?thesis
        using Reader_step assms(1,2) by (simp add: reader_step_Returned)
    next
      case False
      have "r_cell (readers sys ! j) \<noteq> c"
        using assms(1,3,4) j False by (auto simp: distinct_conv_nth)
      then have cell: "m_acquire_list (snd (reader_step (readers sys ! j) (mem sys))) ! c =
          m_acquire_list (mem sys) ! c"
        by (rule reader_step_other_cell)
      have "map r_cell ((readers sys)[j := fst (reader_step (readers sys ! j) (mem sys))]) =
          map r_cell (readers sys)"
        using j by (simp add: map_update reader_step_cell list_update_same_conv)
      then show ?thesis
        using Reader_step j False cell by (simp add: split_beta)
    qed
  qed
next
  case (Reclaimer_step j)
  then show ?thesis
    by (simp add: split_beta reclaimer_step_cells)
next
  case (Source_store a v)
  then show ?thesis by (simp add: atomic_store_def)
qed

lemma run_keeps_returned_reader:
  assumes "k < length (readers sys)" "r_pc (readers sys ! k) = Returned"
    "r_cell (readers sys ! k) = c" "distinct (map r_cell (readers sys))"
  shows "readers (run sched sys) ! k = readers sys ! k \<and>
         map r_cell (readers (run sched sys)) = map r_cell (readers sys) \<and>
         m_acquire_list (mem (run sched sys)) ! c = m_acquire_list (mem sys) ! c"
proof (induction sched rule: rev_induct)
  case Nil
  show ?case by (simp add: run_Nil)
next
  case (snoc a sched)
  let ?sys1 = "run sched sys"
  have len: "length (readers ?sys1) = length (readers sys)"
    using snoc.IH by (metis length_map)
  have pre: "k < length (readers ?sys1)" "r_pc (readers ?sys1 ! k) = Returned"
    "r_cell (readers ?sys1 ! k) = c" "distinct (map r_cell (readers ?sys1))"
    using assms snoc.IH len by simp_all
  from step_keeps_returned_reader[OF pre, of a] snoc.IH
  show ?case by (simp add: run_snoc)
qed

text \<open>
  The guarantee a reader relies on. A reader that has returned from \<open>protect\<close> writes
  its cell no more, and no other thread writes a cell it does not own; so the cell
  holds the validated address in every state of every schedule, and no pass that has
  not yet gone past the cell in a scan for that address deletes it.
\<close>

lemma returned_reader_holds_throughout:
  assumes "k < length (readers sys)" "r_pc (readers sys ! k) = Returned"
    "r_cell (readers sys ! k) = c" "distinct (map r_cell (readers sys))"
    "m_acquire_list (mem sys) ! c = p"
  shows "holds_throughout c p sched sys"
  using run_keeps_returned_reader[OF assms(1-4)] assms(5)
  by (simp add: holds_throughout_def list_all_iff)

lemma validated_protection_never_deleted:
  assumes "k < length (readers sys)" "r_pc (readers sys ! k) = Returned"
    "r_cell (readers sys ! k) = c" "distinct (map r_cell (readers sys))"
    "m_acquire_list (mem sys) ! c = p" "c < max_objects (mem sys)"
    "p \<noteq> nullptr" "p \<noteq> reserved_sentinel" "p \<noteq> reserved_reset"
    "list_all (not_past c p) (reclaimers sys)"
  shows "p \<notin> set (deleted_during sched sys)"
proof -
  have h: "holds_throughout c p sched sys"
    using assms(1-5) by (rule returned_reader_holds_throughout)
  from run_safe[OF assms(6-10) h] show ?thesis
    by (auto simp: deleted_during_def)
qed

section \<open>Capture under interleaving, and the capacity bound\<close>

lemma capture_run_snoc: "capture_run (sched @ [a]) sys = capture_step a (capture_run sched sys)"
  by (simp add: capture_run_def)

lemma capture_run_Nil: "capture_run [] sys = sys"
  by (simp add: capture_run_def)

text \<open>
  A capturer returns cell \<open>i\<close> only by the step in which its own compare-and-exchange
  found cell \<open>i\<close> null and wrote the sentinel; an exchange that finds the cell taken
  goes on to the next cell; it aborts only past the last cell.
\<close>

lemma capturer_step_Captured:
  assumes "capturer_step pc s = (Captured i, s1)" "pc \<noteq> Captured i"
  shows "pc = Cas_cell i \<and> m_acquire_list s ! i = nullptr \<and>
         m_acquire_list s1 = (m_acquire_list s)[i := reserved_sentinel] \<and>
         accesses s1 = accesses s @
           [Cas (Cell i) memory_order_acq_rel nullptr reserved_sentinel True]"
  using assms
  by (cases pc)
     (auto simp: capturer_step_def atomic_load_def compare_exchange_strong_def Let_def
           split: if_splits)

lemma capturer_step_lost_cas:
  "m_acquire_list s ! i \<noteq> nullptr \<Longrightarrow>
   capturer_step (Cas_cell i) s =
     (Load_cell (i + 1),
      s\<lparr>accesses := accesses s @
           [Cas (Cell i) memory_order_acq_rel nullptr reserved_sentinel False]\<rparr>)"
  by (simp add: capturer_step_def compare_exchange_strong_def Let_def)

lemma capturer_step_Aborted:
  assumes "capturer_step pc s = (Aborted, s1)" "pc \<noteq> Aborted"
  shows "\<exists>i. pc = Load_cell i \<and> max_objects s \<le> i \<and> s1 = s"
  using assms
  by (cases pc)
     (auto simp: capturer_step_def atomic_load_def compare_exchange_strong_def Let_def
           split: if_splits)

text \<open>
  Two capturers and two free cells. Both load cell \<open>0\<close> as null; the second wins the
  exchange on it; the first loses its exchange, goes on and claims cell \<open>1\<close>.
\<close>

lemma capture_race_example:
  "capturers (capture_run
      [Capturer_step 0, Capturer_step 1, Capturer_step 1, Capturer_step 0, Capturer_step 0,
       Capturer_step 0]
      \<lparr>c_mem = \<lparr>m_acquire_list = [nullptr, nullptr], m_instance = None,
                atomics = (\<lambda>_. nullptr), accesses = [], deleted = []\<rparr>,
        capturers = [Load_cell 0, Load_cell 0]\<rparr>) = [Captured 1, Captured 0] \<and>
   accesses (c_mem (capture_run
      [Capturer_step 0, Capturer_step 1, Capturer_step 1, Capturer_step 0, Capturer_step 0,
       Capturer_step 0]
      \<lparr>c_mem = \<lparr>m_acquire_list = [nullptr, nullptr], m_instance = None,
                atomics = (\<lambda>_. nullptr), accesses = [], deleted = []\<rparr>,
        capturers = [Load_cell 0, Load_cell 0]\<rparr>)) =
     [Load (Cell 0) memory_order_relaxed nullptr,
      Load (Cell 0) memory_order_relaxed nullptr,
      Cas (Cell 0) memory_order_acq_rel nullptr reserved_sentinel True,
      Cas (Cell 0) memory_order_acq_rel nullptr reserved_sentinel False,
      Load (Cell 1) memory_order_relaxed nullptr,
      Cas (Cell 1) memory_order_acq_rel nullptr reserved_sentinel True]"
  by code_simp

text \<open>
  A capturer that runs alone returns what \<open>capture_cell\<close> returns, or aborts when
  \<open>capture_cell\<close> aborts.
\<close>

lemma capturer_alone_loop:
  "i \<le> max_objects s \<Longrightarrow>
   \<exists>n. capturer_run n (Load_cell i) s =
     (case capture_cell_loop [i ..< max_objects s] s of
        Inl e \<Rightarrow> (Aborted, snd (capturer_run n (Load_cell i) s))
      | Inr (c, s1) \<Rightarrow> (Captured c, s1))"
proof (induction "max_objects s - i" arbitrary: i s)
  case 0
  then have "i = max_objects s" by simp
  then have "capturer_run (Suc 0) (Load_cell i) s =
     (case capture_cell_loop [i ..< max_objects s] s of
        Inl e \<Rightarrow> (Aborted, snd (capturer_run (Suc 0) (Load_cell i) s))
      | Inr (c, s1) \<Rightarrow> (Captured c, s1))"
    by (simp add: capturer_step_def)
  then show ?case by blast
next
  case (Suc k)
  then have lt: "i < max_objects s" by simp
  let ?v = "m_acquire_list s ! i"
  let ?s1 = "s\<lparr>accesses := accesses s @ [Load (Cell i) memory_order_relaxed ?v]\<rparr>"
  have upt: "[i ..< max_objects s] = i # [Suc i ..< max_objects s]"
    using lt by (simp add: upt_conv_Cons)
  have m1: "max_objects ?s1 = max_objects s" by (simp add: max_objects_def)
  show ?case
  proof (cases "?v = nullptr")
    case True
    let ?s2 = "?s1\<lparr>m_acquire_list := (m_acquire_list s)[i := reserved_sentinel],
                   accesses := accesses ?s1 @
                     [Cas (Cell i) memory_order_acq_rel nullptr reserved_sentinel True]\<rparr>"
    have l: "capture_cell_loop [i ..< max_objects s] s = Inr (i, ?s2)"
      using True by (simp add: upt atomic_load_def compare_exchange_strong_def Let_def)
    have "capturer_run (Suc (Suc 0)) (Load_cell i) s = (Captured i, ?s2)"
      using True lt
      by (simp add: capturer_step_def atomic_load_def compare_exchange_strong_def Let_def)
    then have "capturer_run (Suc (Suc 0)) (Load_cell i) s =
     (case capture_cell_loop [i ..< max_objects s] s of
        Inl e \<Rightarrow> (Aborted, snd (capturer_run (Suc (Suc 0)) (Load_cell i) s))
      | Inr (c, s1) \<Rightarrow> (Captured c, s1))"
      by (simp add: l)
    then show ?thesis by blast
  next
    case False
    have st: "capturer_step (Load_cell i) s = (Load_cell (Suc i), ?s1)"
      using False lt by (simp add: capturer_step_def atomic_load_def Let_def)
    have l: "capture_cell_loop [i ..< max_objects s] s =
             capture_cell_loop [Suc i ..< max_objects s] ?s1"
      using False by (simp add: upt atomic_load_def Let_def)
    have k: "k = max_objects ?s1 - Suc i" using Suc.hyps(2) by (simp add: m1)
    have "Suc i \<le> max_objects ?s1" using lt by (simp add: m1)
    from Suc.hyps(1)[OF k this] obtain n where
      n: "capturer_run n (Load_cell (Suc i)) ?s1 =
        (case capture_cell_loop [Suc i ..< max_objects s] ?s1 of
           Inl e \<Rightarrow> (Aborted, snd (capturer_run n (Load_cell (Suc i)) ?s1))
         | Inr (c, s1) \<Rightarrow> (Captured c, s1))"
      by (auto simp: m1)
    have r: "capturer_run (Suc n) (Load_cell i) s = capturer_run n (Load_cell (Suc i)) ?s1"
      by (simp add: st)
    have "capturer_run (Suc n) (Load_cell i) s =
     (case capture_cell_loop [i ..< max_objects s] s of
        Inl e \<Rightarrow> (Aborted, snd (capturer_run (Suc n) (Load_cell i) s))
      | Inr (c, s1) \<Rightarrow> (Captured c, s1))"
      unfolding l r using n .
    then show ?thesis by blast
  qed
qed

lemma capturer_alone_is_capture_cell:
  "\<exists>n. capturer_run n (Load_cell 0) s =
     (case capture_cell s of
        Inl e \<Rightarrow> (Aborted, snd (capturer_run n (Load_cell 0) s))
      | Inr (c, s1) \<Rightarrow> (Captured c, s1))"
  using capturer_alone_loop[of 0 s] by (simp add: capture_cell_def)

lemma capturer_step_max_objects:
  "max_objects (snd (capturer_step pc s)) = max_objects s"
  by (cases pc)
     (simp_all add: capturer_step_def atomic_load_def compare_exchange_strong_def Let_def
        max_objects_def)

lemma capturer_step_keeps_not_null:
  "m_acquire_list s ! j \<noteq> nullptr \<Longrightarrow> j < max_objects s \<Longrightarrow>
   m_acquire_list (snd (capturer_step pc s)) ! j \<noteq> nullptr"
proof (cases pc)
  case (Cas_cell i)
  assume j: "m_acquire_list s ! j \<noteq> nullptr" "j < max_objects s"
  show ?thesis
  proof (cases "m_acquire_list s ! i = nullptr")
    case True
    with j have "i \<noteq> j" by auto
    then show ?thesis
      using j True Cas_cell
      by (simp add: capturer_step_def compare_exchange_strong_def Let_def)
  next
    case False
    then show ?thesis
      using j Cas_cell
      by (simp add: capturer_step_def compare_exchange_strong_def Let_def)
  qed
qed (simp_all add: capturer_step_def atomic_load_def Let_def)

lemma capturer_step_Cas_cell:
  "fst (capturer_step pc s) = Cas_cell i \<Longrightarrow> pc \<noteq> Cas_cell i \<Longrightarrow> i < max_objects s"
  by (cases pc)
     (auto simp: capturer_step_def atomic_load_def compare_exchange_strong_def Let_def
        split: if_splits)

lemma capturer_step_Cas_cell_stays:
  "fst (capturer_step (Cas_cell i) s) \<noteq> Cas_cell j"
  by (auto simp: capturer_step_def compare_exchange_strong_def Let_def)

lemma capturer_step_new_Captured:
  "fst (capturer_step pc s) = Captured i \<Longrightarrow> pc \<noteq> Captured i \<Longrightarrow>
   pc = Cas_cell i \<and> m_acquire_list s ! i = nullptr \<and>
   m_acquire_list (snd (capturer_step pc s)) = (m_acquire_list s)[i := reserved_sentinel]"
  using capturer_step_Captured[of pc s i "snd (capturer_step pc s)"]
  by (metis prod.collapse)

lemma capturer_step_old_Captured:
  "capturer_step (Captured i) s = (Captured i, s)"
  by (simp add: capturer_step_def)

text \<open>
  For every schedule in which the owners store no null into their cells, capturers
  that start their sweeps never return the same cell, and a returned cell is not null.
\<close>

lemma exclusive_step:
  assumes inv: "exclusive sys" and a: "\<And>j v. a = Owner_store j v \<Longrightarrow> v \<noteq> nullptr"
  shows "exclusive (capture_step a sys)"
proof (cases a)
  case (Owner_store j v)
  then have v: "v \<noteq> nullptr" by (rule a)
  let ?sys1 = "capture_step a sys"
  have caps: "capturers ?sys1 = capturers sys"
    and cells: "m_acquire_list (c_mem ?sys1) = (m_acquire_list (c_mem sys))[j := v]"
    and n: "max_objects (c_mem ?sys1) = max_objects (c_mem sys)"
    using Owner_store by (simp_all add: atomic_store_def max_objects_def)
  note i1 = inv[unfolded exclusive_def, THEN conjunct1, rule_format]
  note i2 = inv[unfolded exclusive_def, THEN conjunct2, THEN conjunct1, rule_format]
  note i3 = inv[unfolded exclusive_def, THEN conjunct2, THEN conjunct2]
  have c1: "\<forall>c < length (capturers ?sys1). \<forall>i. capturers ?sys1 ! c = Cas_cell i \<longrightarrow>
          i < max_objects (c_mem ?sys1)"
    unfolding caps n using i1 by blast
  have c2: "\<forall>c < length (capturers ?sys1). \<forall>i. capturers ?sys1 ! c = Captured i \<longrightarrow>
          i < max_objects (c_mem ?sys1) \<and> m_acquire_list (c_mem ?sys1) ! i \<noteq> nullptr"
  proof (intro allI impI)
    fix c i
    assume "c < length (capturers ?sys1)" "capturers ?sys1 ! c = Captured i"
    then have "c < length (capturers sys)" "capturers sys ! c = Captured i"
      by (simp_all add: caps)
    from i2[OF this] have b: "i < max_objects (c_mem sys)"
      "m_acquire_list (c_mem sys) ! i \<noteq> nullptr" by simp_all
    have "(m_acquire_list (c_mem sys))[j := v] ! i \<noteq> nullptr"
      using b v by (cases "i = j") (simp_all add: max_objects_def)
    with b(1) show "i < max_objects (c_mem ?sys1) \<and>
        m_acquire_list (c_mem ?sys1) ! i \<noteq> nullptr"
      by (simp add: n cells)
  qed
  have c3: "\<forall>c < length (capturers ?sys1). \<forall>c' < length (capturers ?sys1). \<forall>i.
          c \<noteq> c' \<and> capturers ?sys1 ! c = Captured i \<longrightarrow>
          capturers ?sys1 ! c' \<noteq> Captured i"
    unfolding caps using i3 .
  show ?thesis
    unfolding exclusive_def using c1 c2 c3 by (intro conjI)
next
  case (Capturer_step k)
  show ?thesis
  proof (cases "k < length (capturers sys)")
    case False
    then show ?thesis using inv Capturer_step by simp
  next
    case k: True
    let ?pc = "capturers sys ! k"
    let ?s = "c_mem sys"
    let ?pc1 = "fst (capturer_step ?pc ?s)"
    let ?s1 = "snd (capturer_step ?pc ?s)"
    let ?sys1 = "sys\<lparr>c_mem := ?s1, capturers := (capturers sys)[k := ?pc1]\<rparr>"
    have st: "capture_step a sys = ?sys1"
      using Capturer_step k by (simp add: split_beta)
    have n: "max_objects ?s1 = max_objects ?s" by (rule capturer_step_max_objects)
    note i1 = inv[unfolded exclusive_def, THEN conjunct1, rule_format]
    note i2 = inv[unfolded exclusive_def, THEN conjunct2, THEN conjunct1, rule_format]
    note i3 = inv[unfolded exclusive_def, THEN conjunct2, THEN conjunct2, rule_format]
    have c1: "i < max_objects ?s1"
      if "c < length (capturers ?sys1)" "capturers ?sys1 ! c = Cas_cell i" for c i
    proof (cases "c = k")
      case True
      with that k have pc1: "?pc1 = Cas_cell i" by simp
      have "?pc \<noteq> Cas_cell i"
        using pc1 capturer_step_Cas_cell_stays[of i ?s i] by auto
      from capturer_step_Cas_cell[OF pc1 this] show ?thesis by (simp add: n)
    next
      case False
      with that have "c < length (capturers sys)" "capturers sys ! c = Cas_cell i" by simp_all
      from i1[OF this] show ?thesis by (simp add: n)
    qed
    have c2: "i < max_objects ?s1 \<and> m_acquire_list ?s1 ! i \<noteq> nullptr"
      if "c < length (capturers ?sys1)" "capturers ?sys1 ! c = Captured i" for c i
    proof (cases "c = k")
      case True
      with that k have pc1: "?pc1 = Captured i" by simp
      show ?thesis
      proof (cases "?pc = Captured i")
        case old: True
        from i2[OF k old] show ?thesis
          using old by (simp add: capturer_step_old_Captured)
      next
        case new: False
        from capturer_step_new_Captured[OF pc1 new]
        have p: "?pc = Cas_cell i"
          "m_acquire_list ?s1 = (m_acquire_list ?s)[i := reserved_sentinel]"
          by blast+
        from i1[OF k p(1)] have "i < max_objects ?s" .
        then show ?thesis
          by (simp add: n p(2) max_objects_def reserved_distinct)
      qed
    next
      case False
      with that have "c < length (capturers sys)" "capturers sys ! c = Captured i" by simp_all
      from i2[OF this] show ?thesis
        by (simp add: n capturer_step_keeps_not_null)
    qed
    have c3: "capturers ?sys1 ! c' \<noteq> Captured i"
      if "c < length (capturers ?sys1)" "c' < length (capturers ?sys1)"
         "c \<noteq> c'" "capturers ?sys1 ! c = Captured i" for c c' i
    proof
      assume e: "capturers ?sys1 ! c' = Captured i"
      have both: "\<And>x. x < length (capturers sys) \<Longrightarrow> x \<noteq> k \<Longrightarrow>
          capturers ?sys1 ! x = capturers sys ! x"
        by simp
      have lens: "c < length (capturers sys)" "c' < length (capturers sys)"
        using that by simp_all
      have newcap: False
        if x: "x < length (capturers sys)" "x \<noteq> k" "capturers sys ! x = Captured i"
          and pc1: "?pc1 = Captured i" for x
      proof (cases "?pc = Captured i")
        case True
        from i3[OF k x(1), of i] x(2) True x(3) show False by auto
      next
        case False
        from capturer_step_new_Captured[OF pc1 False]
        have "m_acquire_list ?s ! i = nullptr" by blast
        moreover from i2[OF x(1) x(3)] have "m_acquire_list ?s ! i \<noteq> nullptr" by simp
        ultimately show False by simp
      qed
      show False
      proof (cases "c = k")
        case True
        with that k have pc1: "?pc1 = Captured i" by simp
        have "c' \<noteq> k" using True that(3) by simp
        with e lens have "capturers sys ! c' = Captured i" by simp
        from newcap[OF lens(2) \<open>c' \<noteq> k\<close> this pc1] show False .
      next
        case ck: False
        with that lens have cc: "capturers sys ! c = Captured i" by simp
        show False
        proof (cases "c' = k")
          case True
          with e k have pc1: "?pc1 = Captured i" by simp
          from newcap[OF lens(1) ck cc pc1] show False .
        next
          case False
          with e lens have "capturers sys ! c' = Captured i" by simp
          with i3[OF lens(1) lens(2), of i] that(3) cc show False by auto
        qed
      qed
    qed
    show ?thesis
      unfolding st exclusive_def
    proof (intro conjI allI impI)
      fix c i
      assume "c < length (capturers ?sys1)" "capturers ?sys1 ! c = Cas_cell i"
      from c1[OF this] show "i < max_objects (c_mem ?sys1)" by simp
    next
      fix c i
      assume "c < length (capturers ?sys1)" "capturers ?sys1 ! c = Captured i"
      from c2[OF this] show "i < max_objects (c_mem ?sys1)"
        and "m_acquire_list (c_mem ?sys1) ! i \<noteq> nullptr" by simp_all
    next
      fix c c' i
      assume "c < length (capturers ?sys1)" "c' < length (capturers ?sys1)"
        and "c \<noteq> c' \<and> capturers ?sys1 ! c = Captured i"
      then show "capturers ?sys1 ! c' \<noteq> Captured i"
        using c3[of c c' i] by blast
    qed
  qed
qed

lemma exclusive_run:
  assumes "exclusive sys" and "\<forall>j v. Owner_store j v \<in> set sched \<longrightarrow> v \<noteq> nullptr"
  shows "exclusive (capture_run sched sys)"
  using assms(2)
proof (induction sched rule: rev_induct)
  case Nil
  show ?case using assms(1) by (simp add: capture_run_Nil)
next
  case (snoc a sched)
  then have ih: "exclusive (capture_run sched sys)" by simp
  have "\<And>j v. a = Owner_store j v \<Longrightarrow> v \<noteq> nullptr" using snoc.prems by simp
  from exclusive_step[OF ih this] show ?case by (simp add: capture_run_snoc)
qed

lemma captures_are_exclusive:
  assumes "list_all (\<lambda>pc. pc = Load_cell 0) (capturers sys)"
    and "\<forall>j v. Owner_store j v \<in> set sched \<longrightarrow> v \<noteq> nullptr"
    and "c < length (capturers (capture_run sched sys))"
    and "c' < length (capturers (capture_run sched sys))"
    and "c \<noteq> c'"
    and "capturers (capture_run sched sys) ! c = Captured i"
  shows "capturers (capture_run sched sys) ! c' \<noteq> Captured i \<and>
         m_acquire_list (c_mem (capture_run sched sys)) ! i \<noteq> nullptr"
proof -
  have "exclusive sys"
    using assms(1) by (auto simp: exclusive_def list_all_length)
  from exclusive_run[OF this assms(2)] have e: "exclusive (capture_run sched sys)" .
  show ?thesis
    using e[unfolded exclusive_def] assms(3-6) by blast
qed

text \<open>
  Claim C2, at the input where the code departs from it. The sweep does what the
  claim says of it (\<open>capture_cell_first_free_or_abort\<close>, \<open>capturer_step_Captured\<close>,
  \<open>captures_are_exclusive\<close>), and with every cell owned and not null one more capture
  aborts. The capacity bound itself fails. Three cells, all free; three captures give
  three live handles, on the cells \<open>0\<close>, \<open>1\<close> and \<open>2\<close>. The handle on cell \<open>0\<close>
  runs \<open>protect\<close> on a source that holds null, which leaves null in its cell. A fourth
  capture now succeeds and returns cell \<open>0\<close>, where the claim has it fail with the
  fatal capacity outcome.
\<close>

theorem capture_succeeds_with_every_cell_owned:
  "(case capture_cells 3
           \<lparr>m_acquire_list = [nullptr, nullptr, nullptr], m_instance = None,
            atomics = (\<lambda>_. nullptr), accesses = [], deleted = []\<rparr> of
      Inl e \<Rightarrow> False
    | Inr (cs, s1) \<Rightarrow>
        cs = [0, 1, 2] \<and>
        m_acquire_list s1 = [reserved_sentinel, reserved_sentinel, reserved_sentinel] \<and>
        (case capture_cell s1 of Inl e \<Rightarrow> e = Abort | Inr r \<Rightarrow> False) \<and>
        (case protect \<lparr>m_cell = Some 0\<rparr> 0 s1 of
           Inl e \<Rightarrow> False
         | Inr (p, s2) \<Rightarrow>
             p = nullptr \<and>
             m_acquire_list s2 = [nullptr, reserved_sentinel, reserved_sentinel] \<and>
             (case capture_cell s2 of
                Inl e \<Rightarrow> False
              | Inr (c, s3) \<Rightarrow>
                  c = 0 \<and>
                  m_acquire_list s3 =
                    [reserved_sentinel, reserved_sentinel, reserved_sentinel])))"
  by code_simp

end
